theory Spec2Isabelle
  imports Complex_Main "HOL-Library.Log_Nat"
begin

section \<open>Image resizing (chainer/functions/array/resize\_images.py)\<close>

text \<open>
  A shallow embedding of the CPU path of the resampling module: the panel-size heuristic
  \<open>_infer_lines\<close>, the forward engine \<open>interpolate_bilinear_cpu\<close>, the gradient engine
  \<open>interpolate_grad_bilinear_cpu\<close>, the coordinate generator
  \<open>compute_indices_and_weights\<close> and the two operator nodes.

  Numbers. Python integers are \<open>int\<close>; array dimensions are \<open>nat\<close>. Pixel values and
  weights (float32 in the source) are elements of a commutative ring, \<open>rat\<close> in the
  operator nodes: the arithmetic of the engines is exact, rounding of float32 results is
  not part of the model. The coordinate generator works in float64 and its results are
  cut to integers by \<open>floor\<close>, so there rounding can change an index; every float64
  operation of the generator is therefore written as the rounding \<open>rnd\<close> of the exact
  result, with \<open>rnd\<close> a parameter: \<open>id\<close> is exact arithmetic and \<open>fl64\<close> below is
  rounding to the nearest binary64 number. A float64 division by zero does not raise in
  numpy: it yields \<open>nan\<close> or an infinity, which the type \<open>float\<close> keeps as values.
\<close>

subsection \<open>Errors\<close>

text \<open>
  The exceptions a call can end with. \<open>NonFiniteIndex\<close> stands for the cast of a \<open>nan\<close>
  or infinite coordinate to an integer index (\<open>astype(numpy.intp)\<close>): numpy gives no
  defined index there (the smallest intp on x86-64, which the gather then rejects), and the
  model stops at the cast. \<open>NoReturn\<close> is no exception: it records that the \<open>while\<close>
  loop of \<open>_infer_lines\<close> did not return.
\<close>

datatype error =
    ZeroDivisionError
  | ValueError
  | IndexError
  | AssertionError
  | UnboundLocalError
  | InvalidDtype
  | InvalidRank
  | NonFiniteIndex
  | NoReturn

subsection \<open>The panel-size heuristic\<close>

definition py_floordiv :: "int \<Rightarrow> int \<Rightarrow> error + int" where
  "py_floordiv a b = (if b = 0 then Inl ZeroDivisionError else Inr (a div b))"

text \<open>
  The loop \<open>while True: next_lines = lines * 2; if next_lines > target_lines: break;
  lines = next_lines\<close>, as a function of the loop variable; \<open>None\<close> is "does not return"
  (the loop started at \<open>lines = 0\<close> would not).
\<close>

partial_function (option) infer_loop :: "int \<Rightarrow> int \<Rightarrow> int option" where
  "infer_loop lines target_lines =
     (if lines * 2 > target_lines then Some lines
      else infer_loop (lines * 2) target_lines)"

declare infer_loop.simps [code]

definition infer_lines ::
  "int \<Rightarrow> int \<Rightarrow> int \<Rightarrow> int \<Rightarrow> int \<Rightarrow> int \<Rightarrow> int \<Rightarrow> int \<Rightarrow> error + int" where
  "infer_lines B C H W out_H out_W kH kW =
     (let target_size = 2 ^ 17 in
      case py_floordiv (H * W) out_H of
        Inl e \<Rightarrow> Inl e
      | Inr q \<Rightarrow>
          (let line_size = B * C * (q + kH * kW * out_W) in
           case py_floordiv target_size line_size of
             Inl e \<Rightarrow> Inl e
           | Inr target_lines \<Rightarrow>
               if target_lines < out_H then
                 (case infer_loop 1 target_lines of
                    None \<Rightarrow> Inl NoReturn
                  | Some lines \<Rightarrow> Inr lines)
               else Inr out_H))"

text \<open>
  \<open>range(i, stop, step)\<close> for a positive step. The source calls it as
  \<open>range(0, out_H, lines)\<close> and \<open>arange(0, B * C * H * W, H * W)\<close> with a stop that is
  not negative, where a negative step gives the empty range as well; a zero step raises
  and is tested by the callers.
\<close>

function py_range :: "int \<Rightarrow> int \<Rightarrow> int \<Rightarrow> int list" where
  "py_range i stop step =
     (if 0 < step \<and> i < stop then i # py_range (i + step) stop step else [])"
  by pat_completeness auto
termination
  by (relation "measure (\<lambda>(i, stop, step). nat (stop - i))") auto

declare py_range.simps [simp del]

text \<open>
  The largest power of two that does not exceed \<open>n\<close> (0 when there is none, that is for
  \<open>n < 1\<close>); \<open>bitlen n\<close> is the number of binary digits of \<open>n\<close>.
\<close>

definition largest_pow2_le :: "int \<Rightarrow> int" where
  "largest_pow2_le n = (if n < 1 then 0 else 2 ^ nat (bitlen n - 1))"

subsection \<open>Arrays\<close>

text \<open>
  A numpy array: element type, shape and the elements in row-major order. An array is
  well formed when it has as many elements as its shape says.
\<close>

datatype dtype = Float16 | Float32 | Float64 | Intp

record 'a ndarray =
  dtype :: dtype
  shape :: "nat list"
  data :: "'a list"

definition wf_array :: "'a ndarray \<Rightarrow> bool" where
  "wf_array a = (length (data a) = prod_list (shape a))"

text \<open>Tuple unpacking \<open>B, C, H, W = x.shape\<close> and \<open>out_H, out_W = v.shape\<close>.\<close>

definition unpack4 :: "nat list \<Rightarrow> error + nat \<times> nat \<times> nat \<times> nat" where
  "unpack4 s = (case s of [a, b, c, d] \<Rightarrow> Inr (a, b, c, d) | _ \<Rightarrow> Inl ValueError)"

definition unpack2 :: "nat list \<Rightarrow> error + nat \<times> nat" where
  "unpack2 s = (case s of [a, b] \<Rightarrow> Inr (a, b) | _ \<Rightarrow> Inl ValueError)"

text \<open>
  Indexing an axis of length \<open>n\<close> with an integer array: an index is accepted when it
  lies in \<open>[-n, n)\<close>, a negative one counts from the end, any other raises IndexError.
  \<open>getitem xs H W bc vi ui\<close> is the element \<open>x[b, c, vi, ui]\<close> of the image number
  \<open>bc = b * C + c\<close>.
\<close>

definition index_ok :: "nat \<Rightarrow> int \<Rightarrow> bool" where
  "index_ok n i = (- int n \<le> i \<and> i < int n)"

definition norm_index :: "nat \<Rightarrow> int \<Rightarrow> nat" where
  "norm_index n i = (if i < 0 then nat (i + int n) else nat i)"

definition getitem :: "'a list \<Rightarrow> nat \<Rightarrow> nat \<Rightarrow> nat \<Rightarrow> int \<Rightarrow> int \<Rightarrow> 'a" where
  "getitem xs H W bc vi ui = xs ! (bc * (H * W) + norm_index H vi * W + norm_index W ui)"

text \<open>The slice \<open>a[i:i_end]\<close> of a grid with \<open>out_W\<close> columns, for \<open>0 \<le> i \<le> i_end\<close>.\<close>

definition rows :: "nat \<Rightarrow> 'a list \<Rightarrow> int \<Rightarrow> int \<Rightarrow> 'a list" where
  "rows out_W xs i i_end = take (nat (i_end - i) * out_W) (drop (nat i * out_W) xs)"

subsection \<open>The forward engine\<close>

text \<open>
  \<open>numpy.add(col, 1, out=col1); numpy.minimum(col1, n - 1, out=col1)\<close>: the index of the
  next row or column, clamped at the border.
\<close>

definition clamp_next :: "nat \<Rightarrow> int list \<Rightarrow> int list" where
  "clamp_next n col = map (\<lambda>a. min (a + 1) (int n - 1)) col"

text \<open>
  The four weight planes \<open>wcol[0, 0], wcol[0, 1], wcol[1, 0], wcol[1, 1]\<close>, computed as
  the source does: \<open>wcol[0, 1] = uw\<close>, \<open>wcol[0, 0] = 1 - wcol[0, 1]\<close>,
  \<open>wcol[1] = wcol[0] * vw\<close>, \<open>wcol[0] -= wcol[1]\<close>.
\<close>

definition weights :: "'a::comm_ring_1 list \<Rightarrow> 'a list \<Rightarrow> 'a list list" where
  "weights uws vws =
     (let w01 = uws;
          w00 = map (\<lambda>a. 1 - a) w01;
          w10 = map2 (*) w00 vws;
          w11 = map2 (*) w01 vws
      in [map2 (-) w00 w10, map2 (-) w01 w11, w10, w11])"

text \<open>
  One row of \<open>einsum('ijk,jk->ik', panel, weights)\<close>, where
  \<open>panel[bc, 2 * p + q, k] = x[b, c, vcol[p][k], ucol[q][k]]\<close>.
\<close>

definition einsum_row ::
  "'a::comm_ring_1 list \<Rightarrow> nat \<Rightarrow> nat \<Rightarrow> int list list \<Rightarrow> int list list \<Rightarrow> 'a list list
     \<Rightarrow> nat \<Rightarrow> nat \<Rightarrow> 'a list" where
  "einsum_row xs H W vcol ucol wcol n bc =
     map (\<lambda>k. sum_list (map (\<lambda>(p, q).
            getitem xs H W bc (vcol ! p ! k) (ucol ! q ! k) * wcol ! (2 * p + q) ! k)
          [(0, 0), (0, 1), (1, 0), (1, 1)]))
       [0..<n]"

text \<open>
  The body of the loop over the panels: the panel that starts at output row \<open>i\<close> is
  computed and written to the columns \<open>iout..<iout_end\<close> of every row of \<open>y\<close>. The
  buffers \<open>vcol\<close>, \<open>ucol\<close> and \<open>wcol\<close> are overwritten in full by every panel and are
  local values here.
\<close>

definition panel_step ::
  "'a::comm_ring_1 list \<Rightarrow> nat \<Rightarrow> nat \<Rightarrow> nat \<Rightarrow> nat \<Rightarrow> nat \<Rightarrow> int list \<Rightarrow> int list
     \<Rightarrow> 'a list \<Rightarrow> 'a list \<Rightarrow> int \<Rightarrow> int \<Rightarrow> 'a list list \<Rightarrow> error + 'a list list" where
  "panel_step xs BC H W out_H out_W v u vw uw lines i y =
     (let l = min lines (int out_H - i);
          i_end = i + l;
          vcol0 = rows out_W v i i_end;
          ucol0 = rows out_W u i i_end;
          vcol = [vcol0, clamp_next H vcol0];
          ucol = [ucol0, clamp_next W ucol0];
          wcol = weights (rows out_W uw i i_end) (rows out_W vw i i_end)
      in if (\<forall>c \<in> set vcol. \<forall>a \<in> set c. index_ok H a)
            \<and> (\<forall>c \<in> set ucol. \<forall>a \<in> set c. index_ok W a)
         then
           (let iout = nat i * out_W;
                iout_end = nat i_end * out_W
            in Inr (map (\<lambda>bc. take iout (y ! bc)
                      @ einsum_row xs H W vcol ucol wcol (nat l * out_W) bc
                      @ drop iout_end (y ! bc)) [0..<BC]))
         else Inl IndexError)"

fun for_loop :: "('i \<Rightarrow> 's \<Rightarrow> error + 's) \<Rightarrow> 'i list \<Rightarrow> 's \<Rightarrow> error + 's" where
  "for_loop body [] s = Inr s"
| "for_loop body (i # is) s =
     (case body i s of Inl e \<Rightarrow> Inl e | Inr s' \<Rightarrow> for_loop body is s')"

text \<open>
  The engine after the panel size has been chosen. \<open>y = numpy.empty(...)\<close> is not
  initialised in the source; it starts from zeros here. The four grids come from
  \<open>broadcast_arrays\<close> and have one shape; for grids of different shapes the model
  answers ValueError.
\<close>

definition interpolate_panels ::
  "int \<Rightarrow> 'a::comm_ring_1 ndarray \<Rightarrow> int ndarray \<Rightarrow> int ndarray \<Rightarrow> 'a ndarray \<Rightarrow> 'a ndarray
     \<Rightarrow> error + 'a ndarray" where
  "interpolate_panels lines x v u vw uw =
     (case unpack4 (shape x) of
        Inl e \<Rightarrow> Inl e
      | Inr (B, C, H, W) \<Rightarrow>
     (case unpack2 (shape v) of
        Inl e \<Rightarrow> Inl e
      | Inr (out_H, out_W) \<Rightarrow>
          if lines \<le> 0 \<or> shape u \<noteq> shape v \<or> shape vw \<noteq> shape v \<or> shape uw \<noteq> shape v
          then Inl ValueError
          else
            (case for_loop
                    (panel_step (data x) (B * C) H W out_H out_W
                       (data v) (data u) (data vw) (data uw) lines)
                    (py_range 0 (int out_H) lines)
                    (replicate (B * C) (replicate (out_H * out_W) 0)) of
               Inl e \<Rightarrow> Inl e
             | Inr y \<Rightarrow>
                 Inr \<lparr>dtype = dtype x, shape = [B, C, out_H, out_W], data = concat y\<rparr>)))"

definition interpolate_bilinear_cpu ::
  "'a::comm_ring_1 ndarray \<Rightarrow> int ndarray \<Rightarrow> int ndarray \<Rightarrow> 'a ndarray \<Rightarrow> 'a ndarray
     \<Rightarrow> error + 'a ndarray" where
  "interpolate_bilinear_cpu x v u vw uw =
     (case unpack4 (shape x) of
        Inl e \<Rightarrow> Inl e
      | Inr (B, C, H, W) \<Rightarrow>
     (case unpack2 (shape v) of
        Inl e \<Rightarrow> Inl e
      | Inr (out_H, out_W) \<Rightarrow>
     (case infer_lines (int B) (int C) (int H) (int W) (int out_H) (int out_W) 2 2 of
        Inl e \<Rightarrow> Inl e
      | Inr lines \<Rightarrow> interpolate_panels lines x v u vw uw)))"

subsection \<open>The gradient engine\<close>

text \<open>
  \<open>numpy.bincount(xs, weights=ws, minlength=n)\<close>: the weights are added up by index, in
  order; a negative index raises, and the result has \<open>max(n, max(xs) + 1)\<close> cells.
\<close>

definition bincount :: "int list \<Rightarrow> 'a::comm_ring_1 list \<Rightarrow> nat \<Rightarrow> error + 'a list" where
  "bincount xs ws minlength =
     (if (\<exists>i \<in> set xs. i < 0) \<or> length ws \<noteq> length xs then Inl ValueError
      else Inr (fold (\<lambda>(i, w) acc. acc[nat i := acc ! nat i + w]) (zip xs ws)
             (replicate (if xs = [] then minlength
                         else max minlength (nat (fold max xs 0) + 1)) 0)))"

text \<open>
  The ravelled arrays of the source, in the order image, \<open>p\<close>, \<open>q\<close>, output row,
  output column:
  \<^item> \<open>gycol = gy.reshape((B * C, 1, 1, out_H, out_W)) * wcol\<close>;
  \<open>take n (drop (bc * n) gys)\<close> is the image \<open>bc\<close> of \<open>gy\<close>;
  \<^item> \<open>(vcol[:, None] * W + ucol[None, :]).ravel()\<close>, the flat index inside one image;
  \<^item> \<open>(offsets[:, None] + indices).ravel()\<close>, the flat index inside \<open>gx\<close>.
\<close>

definition gycol_of :: "'a::comm_ring_1 list \<Rightarrow> nat \<Rightarrow> nat \<Rightarrow> 'a list list \<Rightarrow> 'a list" where
  "gycol_of gys BC n wcol =
     concat (map (\<lambda>bc. concat (map (\<lambda>w. map2 (*) (take n (drop (bc * n) gys)) w) wcol))
       [0..<BC])"

definition plane_indices :: "int list list \<Rightarrow> int list list \<Rightarrow> nat \<Rightarrow> int list" where
  "plane_indices vcol ucol W =
     concat (map (\<lambda>(p, q). map2 (\<lambda>a b. a * int W + b) (vcol ! p) (ucol ! q))
       [(0, 0), (0, 1), (1, 0), (1, 1)])"

definition batch_indices :: "int list \<Rightarrow> int list \<Rightarrow> int list" where
  "batch_indices indices offsets = concat (map (\<lambda>off. map (\<lambda>a. off + a) indices) offsets)"

text \<open>
  \<open>arange\<close> with the step \<open>H * W = 0\<close> raises; the final \<open>reshape\<close> raises when
  bincount has returned more than \<open>B * C * H * W\<close> cells. The four grids have the shape
  of the last two axes of \<open>gy\<close>; for other shapes the model answers ValueError.
\<close>

definition interpolate_grad_bilinear_cpu ::
  "'a::comm_ring_1 ndarray \<Rightarrow> int ndarray \<Rightarrow> int ndarray \<Rightarrow> 'a ndarray \<Rightarrow> 'a ndarray
     \<Rightarrow> nat \<Rightarrow> nat \<Rightarrow> error + 'a ndarray" where
  "interpolate_grad_bilinear_cpu gy v u vw uw H W =
     (case unpack4 (shape gy) of
        Inl e \<Rightarrow> Inl e
      | Inr (B, C, out_H, out_W) \<Rightarrow>
          if shape v \<noteq> [out_H, out_W] \<or> shape u \<noteq> [out_H, out_W]
             \<or> shape vw \<noteq> [out_H, out_W] \<or> shape uw \<noteq> [out_H, out_W]
          then Inl ValueError
          else
            (let vcol = [data v, clamp_next H (data v)];
                 ucol = [data u, clamp_next W (data u)];
                 wcol = weights (data uw) (data vw);
                 gycol = gycol_of (data gy) (B * C) (out_H * out_W) wcol;
                 indices = plane_indices vcol ucol W
             in if H * W = 0 then Inl ZeroDivisionError
                else
                  (let offsets = py_range 0 (int (B * C * H * W)) (int (H * W));
                       indices = batch_indices indices offsets
                   in case bincount indices gycol (B * C * H * W) of
                        Inl e \<Rightarrow> Inl e
                      | Inr gx \<Rightarrow>
                          if length gx \<noteq> B * C * H * W then Inl ValueError
                          else Inr \<lparr>dtype = dtype gy, shape = [B, C, H, W], data = gx\<rparr>)))"

subsection \<open>The coordinate generator\<close>

text \<open>
  A float64 value: a rational or one of the three values that are not finite.
  \<open>np_divide rnd a b\<close> is the quotient of the float64 \<open>a\<close> by the Python integer \<open>b\<close>
  in an array expression: it never raises.
\<close>

datatype float = Fin rat | PInf | NInf | NaN

definition np_divide :: "(rat \<Rightarrow> rat) \<Rightarrow> rat \<Rightarrow> int \<Rightarrow> float" where
  "np_divide rnd a b =
     (if b = 0 then (if a = 0 then NaN else if 0 < a then PInf else NInf)
      else Fin (rnd (a / of_int b)))"

text \<open>\<open>numpy.modf\<close> returns the fractional and the integral part, both with the sign
  of the argument.\<close>

definition trunc :: "rat \<Rightarrow> int" where
  "trunc q = (if 0 \<le> q then \<lfloor>q\<rfloor> else \<lceil>q\<rceil>)"

definition modf :: "float \<Rightarrow> float \<times> float" where
  "modf x =
     (case x of
        Fin q \<Rightarrow> (Fin (q - of_int (trunc q)), Fin (of_int (trunc q)))
      | PInf \<Rightarrow> (Fin 0, PInf)
      | NInf \<Rightarrow> (Fin 0, NInf)
      | NaN \<Rightarrow> (NaN, NaN))"

text \<open>
  The three coordinate formulas along one axis of input length \<open>n\<close> and output length
  \<open>out_n\<close>:
  \<^item> \<open>arange(out_n) * (n - 1) / (out_n - 1)\<close> (bilinear, align\_corners);
  \<^item> \<open>maximum((arange(out_n) + 0.5) * n / out_n - 0.5, 0)\<close> (bilinear, otherwise); the
    array is empty unless \<open>1 \<le> out_n\<close>, so the divisor of an element is never zero;
  \<^item> \<open>minimum(floor(arange(out_n) * scale), n - 1)\<close> with \<open>scale = n / out_n\<close>, a
    division of Python integers, which raises for \<open>out_n = 0\<close> (nearest).
\<close>

definition coords_align_corners :: "(rat \<Rightarrow> rat) \<Rightarrow> nat \<Rightarrow> int \<Rightarrow> float list" where
  "coords_align_corners rnd n out_n =
     map (\<lambda>i. np_divide rnd (rnd (of_nat i * of_int (int n - 1))) (out_n - 1)) [0..<nat out_n]"

definition coords_half_pixel :: "(rat \<Rightarrow> rat) \<Rightarrow> nat \<Rightarrow> int \<Rightarrow> float list" where
  "coords_half_pixel rnd n out_n =
     map (\<lambda>i. Fin (max (rnd (rnd (rnd (rnd (of_nat i + 1 / 2) * of_nat n) / of_int out_n) - 1 / 2)) 0))
       [0..<nat out_n]"

definition coords_nearest :: "(rat \<Rightarrow> rat) \<Rightarrow> nat \<Rightarrow> int \<Rightarrow> error + float list" where
  "coords_nearest rnd n out_n =
     (if out_n = 0 then Inl ZeroDivisionError
      else
        (let scale = rnd (of_nat n / of_int out_n)
         in Inr (map (\<lambda>i. Fin (of_int (min \<lfloor>rnd (of_nat i * scale)\<rfloor> (int n - 1))))
                  [0..<nat out_n])))"

text \<open>
  The result is \<open>(v, u, vw, uw)\<close>. A mode other than the two names leaves the four
  variables unbound at the \<open>return\<close>.
\<close>

definition compute_indices_and_weights ::
  "(rat \<Rightarrow> rat) \<Rightarrow> int \<times> int \<Rightarrow> nat \<times> nat \<Rightarrow> string \<Rightarrow> bool
     \<Rightarrow> error + float list \<times> float list \<times> float list \<times> float list" where
  "compute_indices_and_weights rnd out_size in_size md align =
     (case out_size of (oh, ow) \<Rightarrow>
      case in_size of (H, W) \<Rightarrow>
        if md = ''bilinear'' then
          (let v = (if align then coords_align_corners rnd H oh else coords_half_pixel rnd H oh);
               u = (if align then coords_align_corners rnd W ow else coords_half_pixel rnd W ow)
           in Inr (map (snd \<circ> modf) v, map (snd \<circ> modf) u,
                   map (fst \<circ> modf) v, map (fst \<circ> modf) u))
        else if md = ''nearest'' then
          (case coords_nearest rnd H oh of
             Inl e \<Rightarrow> Inl e
           | Inr v \<Rightarrow>
          (case coords_nearest rnd W ow of
             Inl e \<Rightarrow> Inl e
           | Inr u \<Rightarrow> Inr (v, u, map (\<lambda>_. Fin 0) v, map (\<lambda>_. Fin 0) u)))
        else Inl UnboundLocalError)"

subsection \<open>The operator nodes\<close>

text \<open>
  The casts \<open>v.astype(numpy.intp)\<close> and \<open>vw.astype(x.dtype)\<close>. A weight that is not
  finite comes with a coordinate that is not finite, whose cast is reached first.
\<close>

definition is_finite :: "float \<Rightarrow> bool" where
  "is_finite x = (case x of Fin _ \<Rightarrow> True | _ \<Rightarrow> False)"

definition fin_value :: "float \<Rightarrow> rat" where
  "fin_value x = (case x of Fin q \<Rightarrow> q | _ \<Rightarrow> 0)"

definition astype_intp :: "float list \<Rightarrow> error + int list" where
  "astype_intp xs =
     (if list_all is_finite xs then Inr (map (trunc \<circ> fin_value) xs) else Inl NonFiniteIndex)"

definition astype_float32 :: "float list \<Rightarrow> error + rat list" where
  "astype_float32 xs =
     (if list_all is_finite xs then Inr (map fin_value xs) else Inl NonFiniteIndex)"

text \<open>
  \<open>broadcast_arrays(v[:, None], u[None, :], vw[:, None], uw[None, :])\<close>: a column is
  repeated along the rows, a row along the columns.
\<close>

definition broadcast_rows :: "dtype \<Rightarrow> 'a list \<Rightarrow> nat \<Rightarrow> 'a ndarray" where
  "broadcast_rows dt col n =
     \<lparr>dtype = dt, shape = [length col, n], data = concat (map (replicate n) col)\<rparr>"

definition broadcast_cols :: "dtype \<Rightarrow> nat \<Rightarrow> 'a list \<Rightarrow> 'a ndarray" where
  "broadcast_cols dt m row =
     \<lparr>dtype = dt, shape = [m, length row], data = concat (replicate m row)\<rparr>"

text \<open>The part that the two \<open>forward\<close> methods share: generator, casts, broadcast.\<close>

definition index_grids ::
  "(rat \<Rightarrow> rat) \<Rightarrow> int \<times> int \<Rightarrow> nat \<times> nat \<Rightarrow> string \<Rightarrow> bool \<Rightarrow> dtype
     \<Rightarrow> error + int ndarray \<times> int ndarray \<times> rat ndarray \<times> rat ndarray" where
  "index_grids rnd out_size in_size md align dt =
     (case compute_indices_and_weights rnd out_size in_size md align of
        Inl e \<Rightarrow> Inl e
      | Inr (v, u, vw, uw) \<Rightarrow>
     (case astype_intp v of Inl e \<Rightarrow> Inl e | Inr v' \<Rightarrow>
     (case astype_intp u of Inl e \<Rightarrow> Inl e | Inr u' \<Rightarrow>
     (case astype_float32 vw of Inl e \<Rightarrow> Inl e | Inr vw' \<Rightarrow>
     (case astype_float32 uw of Inl e \<Rightarrow> Inl e | Inr uw' \<Rightarrow>
        Inr (broadcast_rows Intp v' (length u'), broadcast_cols Intp (length v') u',
             broadcast_rows dt vw' (length uw'), broadcast_cols dt (length vw') uw'))))))"

record resize_images_node =
  node_out_H :: int
  node_out_W :: int
  node_mode :: string
  node_align_corners :: bool

record resize_images_grad_node =
  grad_out_H :: int
  grad_out_W :: int
  grad_input_shape :: "nat list"
  grad_mode :: string
  grad_align_corners :: bool

definition ResizeImages_init :: "int \<times> int \<Rightarrow> string \<Rightarrow> bool \<Rightarrow> error + resize_images_node" where
  "ResizeImages_init output_shape md align =
     (if md \<in> set [''bilinear'', ''nearest'']
      then Inr \<lparr>node_out_H = fst output_shape, node_out_W = snd output_shape,
                node_mode = md, node_align_corners = align\<rparr>
      else Inl AssertionError)"

definition ResizeImagesGrad_init ::
  "nat list \<Rightarrow> int \<times> int \<Rightarrow> string \<Rightarrow> bool \<Rightarrow> error + resize_images_grad_node" where
  "ResizeImagesGrad_init input_shape output_shape md align =
     (if md \<in> set [''bilinear'', ''nearest'']
      then Inr \<lparr>grad_out_H = fst output_shape, grad_out_W = snd output_shape,
                grad_input_shape = input_shape, grad_mode = md, grad_align_corners = align\<rparr>
      else Inl AssertionError)"

text \<open>
  Modelled from the spec: \<open>type_check.expect\<close> (chainer/utils/type\_check.py is not
  among the sources). The spec, sections 4.6 and 7: the input must be rank-4 and of the
  single supported float type, a violation is the error InvalidDtype or InvalidRank. The
  conditions are tested in the order the source passes them.
\<close>

definition expect :: "(bool \<times> error) list \<Rightarrow> error + unit" where
  "expect conds = (case filter (\<lambda>c. \<not> fst c) conds of [] \<Rightarrow> Inr () | c # _ \<Rightarrow> Inl (snd c))"

text \<open>The method of both nodes: \<open>dtype == numpy.float32\<close> and \<open>ndim == 4\<close>.\<close>

definition check_type_forward :: "'a ndarray \<Rightarrow> error + unit" where
  "check_type_forward x =
     expect [(dtype x = Float32, InvalidDtype), (length (shape x) = 4, InvalidRank)]"

text \<open>
  Modelled from the spec: \<open>FunctionNode.apply\<close> (chainer/function\_node.py is not among
  the sources). The spec, section 4.6: construct, validate, compute, done; a violation
  fails before any computation.
\<close>

definition FunctionNode_apply ::
  "('a \<Rightarrow> error + unit) \<Rightarrow> ('a \<Rightarrow> error + 'b) \<Rightarrow> 'a \<Rightarrow> error + 'b" where
  "FunctionNode_apply check forward x =
     (case check x of Inl e \<Rightarrow> Inl e | Inr _ \<Rightarrow> forward x)"

text \<open>The \<open>forward\<close> methods, for an array of the numpy module (the CPU engines).\<close>

definition ResizeImages_forward ::
  "(rat \<Rightarrow> rat) \<Rightarrow> resize_images_node \<Rightarrow> rat ndarray \<Rightarrow> error + rat ndarray" where
  "ResizeImages_forward rnd node x =
     (case unpack2 (drop 2 (shape x)) of
        Inl e \<Rightarrow> Inl e
      | Inr in_size \<Rightarrow>
     (case index_grids rnd (node_out_H node, node_out_W node) in_size
             (node_mode node) (node_align_corners node) (dtype x) of
        Inl e \<Rightarrow> Inl e
      | Inr (v, u, vw, uw) \<Rightarrow> interpolate_bilinear_cpu x v u vw uw))"

definition ResizeImagesGrad_forward ::
  "(rat \<Rightarrow> rat) \<Rightarrow> resize_images_grad_node \<Rightarrow> rat ndarray \<Rightarrow> error + rat ndarray" where
  "ResizeImagesGrad_forward rnd node gy =
     (case unpack4 (grad_input_shape node) of
        Inl e \<Rightarrow> Inl e
      | Inr (B, C, H, W) \<Rightarrow>
     (case index_grids rnd (grad_out_H node, grad_out_W node) (H, W)
             (grad_mode node) (grad_align_corners node) (dtype gy) of
        Inl e \<Rightarrow> Inl e
      | Inr (v, u, vw, uw) \<Rightarrow> interpolate_grad_bilinear_cpu gy v u vw uw H W))"

definition ResizeImages_apply ::
  "(rat \<Rightarrow> rat) \<Rightarrow> resize_images_node \<Rightarrow> rat ndarray \<Rightarrow> error + rat ndarray" where
  "ResizeImages_apply rnd node =
     FunctionNode_apply check_type_forward (ResizeImages_forward rnd node)"

definition ResizeImagesGrad_apply ::
  "(rat \<Rightarrow> rat) \<Rightarrow> resize_images_grad_node \<Rightarrow> rat ndarray \<Rightarrow> error + rat ndarray" where
  "ResizeImagesGrad_apply rnd node =
     FunctionNode_apply check_type_forward (ResizeImagesGrad_forward rnd node)"

definition resize_images ::
  "(rat \<Rightarrow> rat) \<Rightarrow> rat ndarray \<Rightarrow> int \<times> int \<Rightarrow> string \<Rightarrow> bool \<Rightarrow> error + rat ndarray" where
  "resize_images rnd x output_shape md align =
     (case ResizeImages_init output_shape md align of
        Inl e \<Rightarrow> Inl e
      | Inr node \<Rightarrow> ResizeImages_apply rnd node x)"

subsection \<open>Rounding to binary64\<close>

text \<open>
  \<open>round_to_precision p x\<close> is the number with \<open>p\<close> significant binary digits nearest
  to \<open>x\<close>, ties to the even significand (exponent range not limited); \<open>ilog2 a\<close> is the
  exponent of the leading binary digit of \<open>a > 0\<close>.
\<close>

definition pow2 :: "int \<Rightarrow> rat" where
  "pow2 e = (if 0 \<le> e then 2 ^ nat e else 1 / 2 ^ nat (- e))"

definition ilog2 :: "rat \<Rightarrow> int" where
  "ilog2 a =
     (case quotient_of a of (p, q) \<Rightarrow>
        (let d = bitlen p - bitlen q in if pow2 d \<le> a then d else d - 1))"

definition round_half_even :: "rat \<Rightarrow> int" where
  "round_half_even m =
     (let f = \<lfloor>m\<rfloor>; d = m - of_int f
      in if d < 1 / 2 then f else if 1 / 2 < d then f + 1 else if even f then f else f + 1)"

definition round_to_precision :: "nat \<Rightarrow> rat \<Rightarrow> rat" where
  "round_to_precision p x =
     (if x = 0 then 0
      else
        (let e = ilog2 \<bar>x\<bar>;
             ulp = pow2 (e - (int p - 1))
         in sgn x * of_int (round_half_even (\<bar>x\<bar> / ulp)) * ulp))"

definition fl64 :: "rat \<Rightarrow> rat" where
  "fl64 = round_to_precision 53"

subsection \<open>Per-element views\<close>

text \<open>
  The value of the output element number \<open>K\<close> (row-major in the output grid) of the
  image \<open>bc\<close>, with the weights in the form the engines compute them; lemma
  \<open>interpolate_panels_pixels\<close> below shows that the forward engine returns these values.
\<close>

definition engine_pixel ::
  "'a::comm_ring_1 list \<Rightarrow> nat \<Rightarrow> nat \<Rightarrow> int list \<Rightarrow> int list \<Rightarrow> 'a list \<Rightarrow> 'a list
     \<Rightarrow> nat \<Rightarrow> nat \<Rightarrow> 'a" where
  "engine_pixel xs H W v u vw uw bc K =
     (let v0 = v ! K; u0 = u ! K;
          v1 = min (v0 + 1) (int H - 1); u1 = min (u0 + 1) (int W - 1);
          a = uw ! K; b = vw ! K
      in getitem xs H W bc v0 u0 * ((1 - a) - (1 - a) * b)
         + (getitem xs H W bc v0 u1 * (a - a * b)
         + (getitem xs H W bc v1 u0 * ((1 - a) * b)
         + (getitem xs H W bc v1 u1 * (a * b) + 0))))"



text \<open>The inner product of two arrays of one shape.\<close>

definition inner :: "'a::comm_ring_1 list \<Rightarrow> 'a list \<Rightarrow> 'a" where
  "inner xs ys = sum_list (map2 (*) xs ys)"

text \<open>
  The element \<open>a[n, c, i, j]\<close> of an array of rank 4, and the same element of the
  result of a call (\<open>None\<close> when the call has raised).
\<close>

definition at4 :: "'a ndarray \<Rightarrow> nat \<Rightarrow> nat \<Rightarrow> nat \<Rightarrow> nat \<Rightarrow> 'a" where
  "at4 a n c i j = data a ! (((n * shape a ! 1 + c) * shape a ! 2 + i) * shape a ! 3 + j)"

definition output_at :: "error + 'a ndarray \<Rightarrow> nat \<Rightarrow> nat \<Rightarrow> nat \<Rightarrow> nat \<Rightarrow> 'a option" where
  "output_at r n c i j = (case r of Inl e \<Rightarrow> None | Inr y \<Rightarrow> Some (at4 y n c i j))"

text \<open>
  The source index of nearest mode along one axis: \<open>nearest_index\<close> as
  \<open>compute_indices_and_weights\<close> computes it (lemma \<open>coords_nearest_index\<close>), with
  the scale \<open>n / out_n\<close> rounded before it is multiplied by \<open>i\<close>, and
  \<open>claimed_nearest_index\<close> as the spec states it, \<open>min(floor(i * n / out_n), n - 1)\<close>.
\<close>

definition nearest_index :: "(rat \<Rightarrow> rat) \<Rightarrow> nat \<Rightarrow> int \<Rightarrow> nat \<Rightarrow> int" where
  "nearest_index rnd n out_n i =
     min \<lfloor>rnd (of_nat i * rnd (of_nat n / of_int out_n))\<rfloor> (int n - 1)"

definition claimed_nearest_index :: "nat \<Rightarrow> int \<Rightarrow> nat \<Rightarrow> int" where
  "claimed_nearest_index n out_n i = min \<lfloor>of_nat i * of_nat n / of_int out_n :: rat\<rfloor> (int n - 1)"

text \<open>
  The two properties of rounding to float64 that the bounds on the indices rest on:
  rounding is monotone, and the integers and half-integers \<open>k / 2\<close> with
  \<open>\<bar>k\<bar> \<le> 2^53\<close> are float64 numbers, so rounding leaves them as they are. Exact
  arithmetic (\<open>id\<close>) has both.
\<close>

definition float_rounding :: "(rat \<Rightarrow> rat) \<Rightarrow> bool" where
  "float_rounding rnd =
     ((\<forall>a b. a \<le> b \<longrightarrow> rnd a \<le> rnd b)
      \<and> (\<forall>k::int. \<bar>k\<bar> \<le> 2 ^ 53 \<longrightarrow> rnd (of_int k / 2) = of_int k / 2))"

section \<open>The panel-size heuristic returns a positive panel size\<close>

lemma infer_loop_returns:
  assumes "1 \<le> l"
  shows "\<exists>r k. infer_loop l t = Some r \<and> r = l * 2 ^ k \<and> t < 2 * r \<and> (r \<le> t \<or> k = 0)"
  using assms
proof (induction "nat (t - l)" arbitrary: l rule: less_induct)
  case less
  show ?case
  proof (cases "l * 2 > t")
    case True
    then have "infer_loop l t = Some l" by (subst infer_loop.simps) simp
    with True show ?thesis by (intro exI [of _ l] exI [of _ 0]) simp
  next
    case False
    with less.prems have "nat (t - l * 2) < nat (t - l)" by simp
    moreover from less.prems have "1 \<le> l * 2" by simp
    ultimately obtain r k where r: "infer_loop (l * 2) t = Some r" "r = l * 2 * 2 ^ k"
        "t < 2 * r" "r \<le> t \<or> k = 0"
      using less.hyps [of "l * 2"] by blast
    from False have eq: "infer_loop l t = infer_loop (l * 2) t"
      by (subst infer_loop.simps) simp
    from r False have "r \<le> t" by auto
    with r eq show ?thesis
      by (intro exI [of _ r] exI [of _ "Suc k"]) simp
  qed
qed

lemma pow2_between_unique:
  fixes t :: int
  assumes "2 ^ j \<le> t" "t < 2 * 2 ^ j" "2 ^ k \<le> t" "t < 2 * 2 ^ k"
  shows "j = k"
proof (rule ccontr)
  assume "j \<noteq> k"
  then consider "j < k" | "k < j" by arith
  then show False
  proof cases
    case 1
    then have "(2::int) ^ Suc j \<le> 2 ^ k" by (intro power_increasing) auto
    with assms show False by simp
  next
    case 2
    then have "(2::int) ^ Suc k \<le> 2 ^ j" by (intro power_increasing) auto
    with assms show False by simp
  qed
qed

lemma largest_pow2_le_eq:
  fixes t :: int
  assumes "2 ^ k \<le> t" "t < 2 * 2 ^ k"
  shows "largest_pow2_le t = 2 ^ k"
proof -
  have "(0::int) < 2 ^ k" by simp
  with assms have pos: "0 < t" by linarith
  then have b: "2 ^ nat (bitlen t - 1) \<le> t" "t < 2 ^ nat (bitlen t)"
    using bitlen_bounds [of t] by auto
  have "0 < bitlen t"
  proof (rule ccontr)
    assume "\<not> 0 < bitlen t"
    then have "nat (bitlen t) = 0" by simp
    with b(2) pos show False by simp
  qed
  then have "nat (bitlen t) = Suc (nat (bitlen t - 1))" by simp
  with b have "t < 2 * 2 ^ nat (bitlen t - 1)" by simp
  with b(1) assms have "nat (bitlen t - 1) = k"
    using pow2_between_unique [of "nat (bitlen t - 1)" t k] by simp
  with pos show ?thesis by (simp add: largest_pow2_le_def)
qed

lemma py_range_length:
  assumes "0 < step"
  shows "int (length (py_range i stop step)) = max 0 ((stop - i + step - 1) div step)"
  using assms
proof (induction i stop step rule: py_range.induct)
  case (1 i stop step)
  show ?case
  proof (cases "i < stop")
    case True
    with 1 have IH: "int (length (py_range (i + step) stop step))
        = max 0 ((stop - (i + step) + step - 1) div step)" by simp
    have "stop - i + step - 1 = (stop - (i + step) + step - 1) + step" by simp
    then have "(stop - i + step - 1) div step = (stop - (i + step) + step - 1) div step + 1"
      using "1.prems" by (metis div_add_self2 less_irrefl)
    moreover have "0 \<le> (stop - (i + step) + step - 1) div step"
      using True "1.prems" by (simp add: pos_imp_zdiv_nonneg_iff)
    ultimately show ?thesis using True "1.prems" IH
      by (subst py_range.simps) simp
  next
    case False
    then have "stop - i + step - 1 < step" by simp
    then have "(stop - i + step - 1) div step \<le> 0"
      using "1.prems"
      by (cases "0 \<le> stop - i + step - 1") (simp_all add: div_pos_pos_trivial div_nonpos_pos_le0)
    with False show ?thesis by (subst py_range.simps) simp
  qed
qed

lemma ceiling_div_int:
  fixes a b :: int
  assumes "0 < b"
  shows "\<lceil>(of_int a :: rat) / of_int b\<rceil> = (a + b - 1) div b"
proof -
  have "\<lceil>(of_int a :: rat) / of_int b\<rceil> = - ((- a) div b)"
    by (simp add: ceiling_divide_eq_div)
  also have "\<dots> = (a + b - 1) div b"
  proof (cases "a mod b = 0")
    case True
    then obtain q where q: "a = b * q" by auto
    have "(b * q + (b - 1)) div b = q + (b - 1) div b"
      using assms  by (metis div_mult_self4 less_irrefl)
    with assms have "(a + b - 1) div b = q" by (simp add: q add_diff_eq div_pos_pos_trivial)
    moreover have "- a = b * (- q)" using q by simp
    then have "- ((- a) div b) = q" using assms by (simp del: mult_minus_right)
    ultimately show ?thesis by simp
  next
    case False
    have "0 \<le> a mod b" "a mod b < b" using assms by simp_all
    with False have m: "0 < a mod b" "a mod b < b" by simp_all
    have "a + b - 1 = b * (a div b + 1) + (a mod b - 1)"
      by (simp add: algebra_simps)
    then have "(a + b - 1) div b = (a div b + 1) + (a mod b - 1) div b"
      using assms by (metis div_mult_self4 less_irrefl)
    with m have "(a + b - 1) div b = a div b + 1" by (simp add: div_pos_pos_trivial)
    moreover have "(- a) div b = - (a div b) - 1"
      using False assms by (simp add: zdiv_zminus1_eq_if)
    ultimately show ?thesis by simp
  qed
  finally show ?thesis .
qed

lemma infer_lines_unfold:
  assumes "0 < B" "0 < C" "0 < H" "0 < W" "0 < out_H" "0 < out_W"
  shows "0 < B * C * (H * W div out_H + 2 * 2 * out_W)"
    and "infer_lines B C H W out_H out_W 2 2 =
      (if 2 ^ 17 div (B * C * (H * W div out_H + 2 * 2 * out_W)) < out_H
       then (case infer_loop 1 (2 ^ 17 div (B * C * (H * W div out_H + 2 * 2 * out_W))) of
               None \<Rightarrow> Inl NoReturn | Some l \<Rightarrow> Inr l)
       else Inr out_H)"
proof -
  define ls where "ls = B * C * (H * W div out_H + 2 * 2 * out_W)"
  have "0 \<le> H * W div out_H" using assms by (simp add: pos_imp_zdiv_nonneg_iff)
  with assms have "0 < H * W div out_H + 2 * 2 * out_W" by simp
  with assms have ls: "0 < ls" by (simp add: ls_def)
  then show "0 < B * C * (H * W div out_H + 2 * 2 * out_W)" unfolding ls_def .
  from ls have "ls \<noteq> 0" by simp
  then have "B * C * (H * W div out_H + 2 * 2 * out_W) \<noteq> 0" unfolding ls_def .
  then show "infer_lines B C H W out_H out_W 2 2 =
      (if 2 ^ 17 div (B * C * (H * W div out_H + 2 * 2 * out_W)) < out_H
       then (case infer_loop 1 (2 ^ 17 div (B * C * (H * W div out_H + 2 * 2 * out_W))) of
               None \<Rightarrow> Inl NoReturn | Some l \<Rightarrow> Inr l)
       else Inr out_H)"
    using assms by (simp add: infer_lines_def py_floordiv_def)
qed

lemma infer_lines_value:
  assumes "0 < B" "0 < C" "0 < H" "0 < W" "0 < out_H" "0 < out_W"
  shows "infer_lines B C H W out_H out_W 2 2 =
     Inr (let t = 2 ^ 17 div (B * C * (H * W div out_H + 2 * 2 * out_W))
          in if t < out_H then max 1 (largest_pow2_le t) else out_H)"
proof -
  define t where "t = (2 ^ 17 :: int) div (B * C * (H * W div out_H + 2 * 2 * out_W))"
  obtain r k where r: "infer_loop 1 t = Some r" "r = 1 * 2 ^ k" "t < 2 * r" "r \<le> t \<or> k = 0"
    using infer_loop_returns [of 1 t] by auto
  have "r = max 1 (largest_pow2_le t)"
  proof (cases "t < 1")
    case True
    have "(1::int) \<le> 2 ^ k" by simp
    with True r have "k = 0" by auto
    with True r show ?thesis by (simp add: largest_pow2_le_def)
  next
    case False
    with r have "r \<le> t" by auto
    with r have "largest_pow2_le t = 2 ^ k" by (intro largest_pow2_le_eq) auto
    with r show ?thesis by simp
  qed
  with r show ?thesis
    unfolding infer_lines_unfold(2) [OF assms] t_def [symmetric] by (simp add: Let_def)
qed

lemma infer_lines_bounds:
  assumes "0 < B" "0 < C" "0 < H" "0 < W" "0 < out_H" "0 < out_W"
  shows "\<exists>lines. infer_lines B C H W out_H out_W 2 2 = Inr lines \<and> 1 \<le> lines \<and> lines \<le> out_H"
proof -
  define t where "t = (2 ^ 17 :: int) div (B * C * (H * W div out_H + 2 * 2 * out_W))"
  show ?thesis
  proof (cases "t < out_H")
    case True
    obtain r k where r: "infer_loop 1 t = Some r" "r = 1 * 2 ^ k" "t < 2 * r" "r \<le> t \<or> k = 0"
      using infer_loop_returns [of 1 t] by auto
    from r have "1 \<le> r" by simp
    moreover from r True assms have "r \<le> out_H" by auto
    ultimately show ?thesis
      using True r unfolding infer_lines_unfold(2) [OF assms] t_def [symmetric] by simp
  next
    case False
    with assms show ?thesis
      unfolding infer_lines_unfold(2) [OF assms] t_def [symmetric] by simp
  qed
qed

text \<open>
  Claim C10. For all positive \<open>B\<close>, \<open>C\<close>, \<open>H\<close>, \<open>W\<close>, \<open>out_H\<close>, \<open>out_W\<close>: the divisor
  \<open>B * C * (H * W // out_H + 4 * out_W)\<close> is positive, so no division by zero happens;
  \<open>_infer_lines\<close> returns a panel size \<open>lines\<close> with \<open>1 \<le> lines\<close> and
  \<open>lines \<le> max(out_H, p)\<close>, where \<open>p\<close> is the largest power of two not exceeding
  \<open>2^17 // line_size\<close> (in fact \<open>lines \<le> out_H\<close>); and the loop over
  \<open>range(0, out_H, lines)\<close> runs \<open>ceil(out_H / lines)\<close> times.
\<close>

theorem infer_lines_progress:
  assumes "0 < B" "0 < C" "0 < H" "0 < W" "0 < out_H" "0 < out_W"
  shows "0 < B * C * (H * W div out_H + 2 * 2 * out_W) \<and>
    (\<exists>lines. infer_lines B C H W out_H out_W 2 2 = Inr lines
       \<and> 1 \<le> lines \<and> lines \<le> out_H
       \<and> lines \<le> max out_H (largest_pow2_le (2 ^ 17 div (B * C * (H * W div out_H + 2 * 2 * out_W))))
       \<and> int (length (py_range 0 out_H lines)) = \<lceil>(of_int out_H :: rat) / of_int lines\<rceil>)"
proof -
  obtain lines where l: "infer_lines B C H W out_H out_W 2 2 = Inr lines"
     "1 \<le> lines" "lines \<le> out_H"
    using infer_lines_bounds [OF assms] by blast
  from l(2) have "0 \<le> (out_H + lines - 1) div lines"
    using assms by (simp add: pos_imp_zdiv_nonneg_iff)
  with l(2) have "int (length (py_range 0 out_H lines)) = \<lceil>(of_int out_H :: rat) / of_int lines\<rceil>"
    using py_range_length [of lines 0 out_H] ceiling_div_int [of lines out_H] by simp
  with l infer_lines_unfold(1) [OF assms] show ?thesis by auto
qed

theorem infer_lines_progress_witness:
  "\<exists>lines. infer_lines 1 16 32 32 64 64 2 2 = Inr lines
       \<and> 1 \<le> lines \<and> lines \<le> 64
       \<and> int (length (py_range 0 64 lines)) = \<lceil>(64 :: rat) / of_int lines\<rceil>"
  using infer_lines_progress [of 1 16 32 32 64 64] by auto

section \<open>The forward engine, element by element\<close>


lemma nth_take_drop:
  "k < m \<Longrightarrow> d + m \<le> length xs \<Longrightarrow> take m (drop d xs) ! k = xs ! (d + k)"
  by simp

lemma length_take_drop:
  "d + m \<le> length xs \<Longrightarrow> length (take m (drop d xs)) = m"
  by simp

lemma weights_length:
  "length (weights uws vws) = 4"
  by (simp add: weights_def Let_def)

lemma weights_nth:
  assumes "k < length uws" "length vws = length uws"
  shows "weights uws vws ! 0 ! k = (1 - uws ! k) - (1 - uws ! k) * vws ! k"
    and "weights uws vws ! Suc 0 ! k = uws ! k - uws ! k * vws ! k"
    and "weights uws vws ! Suc (Suc 0) ! k = (1 - uws ! k) * vws ! k"
    and "weights uws vws ! Suc (Suc (Suc 0)) ! k = uws ! k * vws ! k"
  using assms by (simp_all add: weights_def Let_def)

lemma einsum_row_slice:
  assumes len: "length v = n" "length u = n" "length vw = n" "length uw = n"
    and dm: "d + m \<le> n"
  shows "einsum_row xs H W
           [take m (drop d v), clamp_next H (take m (drop d v))]
           [take m (drop d u), clamp_next W (take m (drop d u))]
           (weights (take m (drop d uw)) (take m (drop d vw))) m bc
         = map (\<lambda>k. engine_pixel xs H W v u vw uw bc (d + k)) [0..<m]"
proof -
  have "sum_list (map (\<lambda>(p, q).
            getitem xs H W bc ([take m (drop d v), clamp_next H (take m (drop d v))] ! p ! k)
              ([take m (drop d u), clamp_next W (take m (drop d u))] ! q ! k)
            * weights (take m (drop d uw)) (take m (drop d vw)) ! (2 * p + q) ! k)
          [(0, 0), (0, 1), (1, 0), (1, 1)])
        = engine_pixel xs H W v u vw uw bc (d + k)" if k: "k < m" for k
  proof -
    have l: "k < length (take m (drop d uw))"
        "length (take m (drop d vw)) = length (take m (drop d uw))"
      using k len dm by simp_all
    have nths: "take m (drop d v) ! k = v ! (d + k)" "take m (drop d u) ! k = u ! (d + k)"
        "take m (drop d vw) ! k = vw ! (d + k)" "take m (drop d uw) ! k = uw ! (d + k)"
      using k len dm by simp_all
    have cl: "clamp_next H (take m (drop d v)) ! k = min (v ! (d + k) + 1) (int H - 1)"
        "clamp_next W (take m (drop d u)) ! k = min (u ! (d + k) + 1) (int W - 1)"
      using k len dm by (simp_all add: clamp_next_def)
    show ?thesis
      by (simp add: engine_pixel_def Let_def weights_nth [OF l] nths cl)
  qed
  then show ?thesis by (simp add: einsum_row_def)
qed


lemma panel_step_eq:
  fixes xs :: "'a::comm_ring_1 list"
  assumes len: "length v = oh * ow" "length u = oh * ow" "length vw = oh * ow"
      "length uw = oh * ow"
    and i: "0 \<le> i" "i < int oh" and lines: "0 < lines"
    and okv: "\<forall>a \<in> set v. index_ok H a \<and> index_ok H (min (a + 1) (int H - 1))"
    and oku: "\<forall>a \<in> set u. index_ok W a \<and> index_ok W (min (a + 1) (int W - 1))"
  shows "panel_step xs BC H W oh ow v u vw uw lines i y =
     Inr (map (\<lambda>bc. take (nat i * ow) (y ! bc)
            @ map (\<lambda>k. engine_pixel xs H W v u vw uw bc (nat i * ow + k))
                [0..<nat (min lines (int oh - i)) * ow]
            @ drop (nat (i + min lines (int oh - i)) * ow) (y ! bc)) [0..<BC])"
proof -
  define l where "l = min lines (int oh - i)"
  define d where "d = nat i * ow"
  define m where "m = nat l * ow"
  from i lines have l: "0 < l" "nat i + nat l \<le> oh" by (auto simp: l_def)
  then have "(nat i + nat l) * ow \<le> oh * ow" by (intro mult_le_mono1)
  then have dm: "d + m \<le> oh * ow" by (simp add: d_def m_def algebra_simps)
  have sv: "set (take m (drop d v)) \<subseteq> set v"
    by (meson set_take_subset set_drop_subset subset_trans)
  have su: "set (take m (drop d u)) \<subseteq> set u"
    by (meson set_take_subset set_drop_subset subset_trans)
  have ok: "(\<forall>c \<in> set [take m (drop d v), clamp_next H (take m (drop d v))].
               \<forall>a \<in> set c. index_ok H a)
          \<and> (\<forall>c \<in> set [take m (drop d u), clamp_next W (take m (drop d u))].
               \<forall>a \<in> set c. index_ok W a)"
    using okv oku sv su by (auto simp: clamp_next_def)
  have es: "einsum_row xs H W
           [take m (drop d v), clamp_next H (take m (drop d v))]
           [take m (drop d u), clamp_next W (take m (drop d u))]
           (weights (take m (drop d uw)) (take m (drop d vw))) m bc
         = map (\<lambda>k. engine_pixel xs H W v u vw uw bc (d + k)) [0..<m]" for bc
    by (rule einsum_row_slice [OF len dm])
  have r: "rows ow zs i (i + l) = take m (drop d zs)" for zs :: "'b list"
    by (simp add: rows_def m_def d_def)
  note es' = es [unfolded d_def m_def]
  note ok' = ok [unfolded d_def m_def]
  note r' = r [unfolded d_def m_def]
  show ?thesis
    unfolding panel_step_def Let_def l_def [symmetric] r'
    using ok' by (simp add: es')
qed

lemma for_loop_panels:
  fixes xs :: "'a::comm_ring_1 list"
  assumes len: "length v = oh * ow" "length u = oh * ow" "length vw = oh * ow"
      "length uw = oh * ow"
    and lines: "0 < lines"
    and okv: "\<forall>a \<in> set v. index_ok H a \<and> index_ok H (min (a + 1) (int H - 1))"
    and oku: "\<forall>a \<in> set u. index_ok W a \<and> index_ok W (min (a + 1) (int W - 1))"
    and i: "0 \<le> i"
    and inv: "length y = BC"
      "\<forall>bc < BC. length (y ! bc) = oh * ow
          \<and> (\<forall>K < min (oh * ow) (nat i * ow). y ! bc ! K = engine_pixel xs H W v u vw uw bc K)"
  shows "\<exists>y'. for_loop (panel_step xs BC H W oh ow v u vw uw lines)
                 (py_range i (int oh) lines) y = Inr y'
            \<and> length y' = BC
            \<and> (\<forall>bc < BC. y' ! bc = map (engine_pixel xs H W v u vw uw bc) [0..<oh * ow])"
  using i inv lines
proof (induction i "int oh" lines arbitrary: y rule: py_range.induct)
  case (1 i lines)
  show ?case
  proof (cases "i < int oh")
    case False
    with "1.prems" have "oh \<le> nat i" by simp
    then have "oh * ow \<le> nat i * ow" by (intro mult_le_mono1)
    then have mn: "min (oh * ow) (nat i * ow) = oh * ow" by simp
    have "y ! bc = map (engine_pixel xs H W v u vw uw bc) [0..<oh * ow]" if "bc < BC" for bc
      using "1.prems"(3) that unfolding mn by (intro nth_equalityI) auto
    moreover from False have "py_range i (int oh) lines = []"
      by (subst py_range.simps) simp
    ultimately show ?thesis using "1.prems"(2) by simp
  next
    case True
    define l where "l = min lines (int oh - i)"
    define y1 where "y1 = map (\<lambda>bc. take (nat i * ow) (y ! bc)
            @ map (\<lambda>k. engine_pixel xs H W v u vw uw bc (nat i * ow + k)) [0..<nat l * ow]
            @ drop (nat (i + l) * ow) (y ! bc)) [0..<BC]"
    have step: "panel_step xs BC H W oh ow v u vw uw lines i y = Inr y1"
      unfolding y1_def l_def
      by (rule panel_step_eq [OF len "1.prems"(1) True "1.prems"(4) okv oku])
    from True "1.prems" have l: "0 < l" "nat i + nat l \<le> oh" "nat (i + l) = nat i + nat l"
      by (auto simp: l_def)
    then have "(nat i + nat l) * ow \<le> oh * ow" by (intro mult_le_mono1)
    then have dm: "nat i * ow + nat l * ow \<le> oh * ow" by (simp add: algebra_simps)
    have cover: "min (oh * ow) (nat (i + lines) * ow) \<le> nat i * ow + nat l * ow"
    proof (cases "lines \<le> int oh - i")
      case True
      then have "l = lines" by (simp add: l_def)
      with l show ?thesis by (simp add: algebra_simps)
    next
      case False
      then have "l = int oh - i" by (simp add: l_def)
      with "1.prems"(1) True have "nat i + nat l = oh" by simp
      then have "nat i * ow + nat l * ow = oh * ow" by (metis add_mult_distrib)
      then show ?thesis by simp
    qed
    have inv1: "length y1 = BC" by (simp add: y1_def)
    have inv2: "\<forall>bc < BC. length (y1 ! bc) = oh * ow
          \<and> (\<forall>K < min (oh * ow) (nat (i + lines) * ow).
                y1 ! bc ! K = engine_pixel xs H W v u vw uw bc K)"
    proof (intro allI impI conjI)
      fix bc assume bc: "bc < BC"
      with "1.prems"(3) have ly: "length (y ! bc) = oh * ow" by simp
      from bc have y1bc: "y1 ! bc = take (nat i * ow) (y ! bc)
            @ map (\<lambda>k. engine_pixel xs H W v u vw uw bc (nat i * ow + k)) [0..<nat l * ow]
            @ drop (nat (i + l) * ow) (y ! bc)" by (simp add: y1_def)
      show "length (y1 ! bc) = oh * ow"
        using dm ly l(3) by (simp add: y1bc algebra_simps)
      fix K assume "K < min (oh * ow) (nat (i + lines) * ow)"
      then have K: "K < nat i * ow + nat l * ow" using cover by (rule less_le_trans)
      show "y1 ! bc ! K = engine_pixel xs H W v u vw uw bc K"
      proof (cases "K < nat i * ow")
        case True
        with dm have "K < min (oh * ow) (nat i * ow)" by simp
        with "1.prems"(3) bc have "y ! bc ! K = engine_pixel xs H W v u vw uw bc K" by simp
        moreover from dm have "min (oh * ow) (nat i * ow) = nat i * ow" by simp
        ultimately show ?thesis using True ly by (simp add: y1bc nth_append)
      next
        case False
        with K have "K - nat i * ow < nat l * ow" by simp
        moreover from dm have "min (oh * ow) (nat i * ow) = nat i * ow" by simp
        ultimately show ?thesis using False ly by (simp add: y1bc nth_append)
      qed
    qed
    from "1.prems"(1,4) have i': "0 \<le> i + lines" by simp
    from True "1.prems"(4) have c: "0 < lines \<and> i < int oh" by simp
    obtain y' where y': "for_loop (panel_step xs BC H W oh ow v u vw uw lines)
                 (py_range (i + lines) (int oh) lines) y1 = Inr y'"
        "length y' = BC"
        "\<forall>bc < BC. y' ! bc = map (engine_pixel xs H W v u vw uw bc) [0..<oh * ow]"
      using "1.hyps" [OF c i' inv1 inv2 "1.prems"(4)] by blast
    from c have "py_range i (int oh) lines = i # py_range (i + lines) (int oh) lines"
      by (subst py_range.simps) simp
    with step y' show ?thesis by simp
  qed
qed

lemma interpolate_panels_pixels:
  fixes x :: "'a::comm_ring_1 ndarray"
  assumes sx: "shape x = [B, C, H, W]"
    and sg: "shape v = [oh, ow]" "shape u = [oh, ow]" "shape vw = [oh, ow]" "shape uw = [oh, ow]"
    and wf: "wf_array v" "wf_array u" "wf_array vw" "wf_array uw"
    and lines: "0 < lines"
    and okv: "\<forall>a \<in> set (data v). index_ok H a \<and> index_ok H (min (a + 1) (int H - 1))"
    and oku: "\<forall>a \<in> set (data u). index_ok W a \<and> index_ok W (min (a + 1) (int W - 1))"
  shows "interpolate_panels lines x v u vw uw =
     Inr \<lparr>dtype = dtype x, shape = [B, C, oh, ow],
          data = concat (map (\<lambda>bc. map (engine_pixel (data x) H W (data v) (data u)
                                          (data vw) (data uw) bc) [0..<oh * ow])
                   [0..<B * C])\<rparr>"
proof -
  from sg wf have len: "length (data v) = oh * ow" "length (data u) = oh * ow"
      "length (data vw) = oh * ow" "length (data uw) = oh * ow"
    by (simp_all add: wf_array_def)
  let ?y0 = "replicate (B * C) (replicate (oh * ow) (0::'a))"
  have inv: "length ?y0 = B * C"
    "\<forall>bc < B * C. length (?y0 ! bc) = oh * ow
        \<and> (\<forall>K < min (oh * ow) (nat 0 * ow).
              ?y0 ! bc ! K = engine_pixel (data x) H W (data v) (data u) (data vw) (data uw) bc K)"
    by simp_all
  obtain y' where y': "for_loop (panel_step (data x) (B * C) H W oh ow (data v) (data u)
                  (data vw) (data uw) lines) (py_range 0 (int oh) lines) ?y0 = Inr y'"
      "length y' = B * C"
      "\<forall>bc < B * C. y' ! bc = map (engine_pixel (data x) H W (data v) (data u)
                                     (data vw) (data uw) bc) [0..<oh * ow]"
    using for_loop_panels [OF len lines okv oku _ inv] by auto
  from y'(2,3) have "y' = map (\<lambda>bc. map (engine_pixel (data x) H W (data v) (data u)
                                          (data vw) (data uw) bc) [0..<oh * ow]) [0..<B * C]"
    by (intro nth_equalityI) simp_all
  with y'(1) lines show ?thesis
    by (simp add: interpolate_panels_def unpack4_def unpack2_def sx sg)
qed

lemma interpolate_bilinear_cpu_pixels:
  fixes x :: "'a::comm_ring_1 ndarray"
  assumes sx: "shape x = [B, C, H, W]"
    and sg: "shape v = [oh, ow]" "shape u = [oh, ow]" "shape vw = [oh, ow]" "shape uw = [oh, ow]"
    and wf: "wf_array v" "wf_array u" "wf_array vw" "wf_array uw"
    and pos: "0 < B" "0 < C" "0 < H" "0 < W" "0 < oh" "0 < ow"
    and inv: "\<forall>a \<in> set (data v). 0 \<le> a \<and> a < int H"
    and inu: "\<forall>a \<in> set (data u). 0 \<le> a \<and> a < int W"
  shows "interpolate_bilinear_cpu x v u vw uw =
     Inr \<lparr>dtype = dtype x, shape = [B, C, oh, ow],
          data = concat (map (\<lambda>bc. map (engine_pixel (data x) H W (data v) (data u)
                                          (data vw) (data uw) bc) [0..<oh * ow])
                   [0..<B * C])\<rparr>"
proof -
  from inv pos have okv: "\<forall>a \<in> set (data v). index_ok H a \<and> index_ok H (min (a + 1) (int H - 1))"
    by (auto simp: index_ok_def)
  from inu pos have oku: "\<forall>a \<in> set (data u). index_ok W a \<and> index_ok W (min (a + 1) (int W - 1))"
    by (auto simp: index_ok_def)
  obtain lines where l: "infer_lines (int B) (int C) (int H) (int W) (int oh) (int ow) 2 2
      = Inr lines" "1 \<le> lines"
    using infer_lines_bounds [of "int B" "int C" "int H" "int W" "int oh" "int ow"] pos
    by auto
  then have "interpolate_bilinear_cpu x v u vw uw = interpolate_panels lines x v u vw uw"
    by (simp add: interpolate_bilinear_cpu_def unpack4_def unpack2_def sx sg)
  with l(2) interpolate_panels_pixels [OF sx sg wf _ okv oku, of lines] show ?thesis by simp
qed

section \<open>The panels against the direct formula\<close>











section \<open>The gradient engine is the adjoint of the forward engine\<close>

lemma inner_update:
  fixes xs :: "'a::comm_ring_1 list"
  shows "i < length acc \<Longrightarrow> length xs = length acc
    \<Longrightarrow> inner xs (acc[i := acc ! i + w]) = inner xs acc + xs ! i * w"
proof (induction xs arbitrary: acc i)
  case Nil
  then show ?case by simp
next
  case (Cons x xs)
  then obtain a acc' where acc: "acc = a # acc'" by (cases acc) auto
  show ?case
  proof (cases i)
    case 0
    then show ?thesis by (simp add: acc inner_def algebra_simps)
  next
    case (Suc j)
    with Cons.prems acc have "inner xs (acc'[j := acc' ! j + w]) = inner xs acc' + xs ! j * w"
      by (intro Cons.IH) simp_all
    then show ?thesis by (simp add: acc Suc inner_def algebra_simps)
  qed
qed

lemma inner_fold_bincount:
  fixes xs :: "'a::comm_ring_1 list"
  assumes "length xs = length acc" "\<forall>(i, w) \<in> set es. 0 \<le> i \<and> nat i < length acc"
  shows "length (fold (\<lambda>(i, w) acc. acc[nat i := acc ! nat i + w]) es acc) = length acc
    \<and> inner xs (fold (\<lambda>(i, w) acc. acc[nat i := acc ! nat i + w]) es acc)
      = inner xs acc + sum_list (map (\<lambda>(i, w). xs ! nat i * w) es)"
  using assms
proof (induction es arbitrary: acc)
  case Nil
  then show ?case by simp
next
  case (Cons e es)
  obtain i w where e: "e = (i, w)" by (cases e)
  let ?acc = "acc[nat i := acc ! nat i + w]"
  from Cons.prems e have i: "nat i < length acc" by simp
  have "length xs = length ?acc" using Cons.prems by simp
  moreover have "\<forall>(i, w) \<in> set es. 0 \<le> i \<and> nat i < length ?acc" using Cons.prems by simp
  ultimately have IH: "length (fold (\<lambda>(i, w) acc. acc[nat i := acc ! nat i + w]) es ?acc)
        = length ?acc"
     "inner xs (fold (\<lambda>(i, w) acc. acc[nat i := acc ! nat i + w]) es ?acc)
      = inner xs ?acc + sum_list (map (\<lambda>(i, w). xs ! nat i * w) es)"
    using Cons.IH [of ?acc] by simp_all
  from i Cons.prems have "inner xs ?acc = inner xs acc + xs ! nat i * w"
    by (intro inner_update) simp_all
  with IH show ?case by (simp add: e algebra_simps)
qed

lemma inner_replicate_zero:
  fixes xs :: "'a::comm_ring_1 list"
  shows "inner xs (replicate n 0) = 0"
proof (induction xs arbitrary: n)
  case Nil
  then show ?case by (simp add: inner_def)
next
  case (Cons x xs)
  then show ?case by (cases n) (simp_all add: inner_def)
qed

lemma fold_max_le:
  fixes m :: int
  shows "\<forall>x \<in> set xs. x \<le> m \<Longrightarrow> a \<le> m \<Longrightarrow> fold max xs a \<le> m"
  by (induction xs arbitrary: a) simp_all

lemma bincount_in_range:
  fixes ws :: "'a::comm_ring_1 list"
  assumes "length ws = length idx" "\<forall>i \<in> set idx. 0 \<le> i \<and> i < int n"
  shows "bincount idx ws n
    = Inr (fold (\<lambda>(i, w) acc. acc[nat i := acc ! nat i + w]) (zip idx ws) (replicate n 0))"
proof -
  have "max n (nat (fold max idx 0) + 1) = n" if "idx \<noteq> []"
  proof -
    from that assms(2) obtain i where "0 \<le> i" "i < int n" by (cases idx) auto
    then have n: "0 < n" by simp
    from assms(2) have "\<forall>x \<in> set idx. x \<le> int n - 1" by auto
    with n have "fold max idx 0 \<le> int n - 1" by (intro fold_max_le) simp_all
    with n show ?thesis by simp
  qed
  moreover from assms(2) have "\<not> (\<exists>i \<in> set idx. i < 0)" by auto
  ultimately show ?thesis using assms(1) by (simp add: bincount_def)
qed

lemma py_range_offsets:
  assumes "0 < M"
  shows "py_range (int (k * M)) (int (n * M)) (int M) = map (\<lambda>bc. int (bc * M)) [k..<n]"
proof (induction "n - k" arbitrary: k)
  case 0
  then have "n \<le> k" by simp
  then have "n * M \<le> k * M" by (intro mult_le_mono1)
  then have "int (n * M) \<le> int (k * M)" by (simp only: of_nat_le_iff)
  then have "\<not> int (k * M) < int (n * M)" by (rule leD)
  with 0 show ?case by (subst py_range.simps) simp
next
  case (Suc d)
  then have k: "k < n" and d: "d = n - Suc k" by simp_all
  from k assms have "k * M < n * M" by simp
  then have "int (k * M) < int (n * M)" by simp
  with assms have "py_range (int (k * M)) (int (n * M)) (int M)
      = int (k * M) # py_range (int (k * M) + int M) (int (n * M)) (int M)"
    by (subst py_range.simps) simp
  moreover have "int (k * M) + int M = int (Suc k * M)" by simp
  ultimately show ?case using Suc.hyps(1) [OF d] k by (simp add: upt_conv_Cons add.commute)
qed


lemma zip_nth_upt:
  "length as = n \<Longrightarrow> length bs = n \<Longrightarrow> zip as bs = map (\<lambda>K. (as ! K, bs ! K)) [0..<n]"
  by (intro nth_equalityI) simp_all

lemma inner_nth:
  fixes as :: "'a::comm_ring_1 list"
  shows "length as = n \<Longrightarrow> length bs = n
    \<Longrightarrow> inner as bs = sum_list (map (\<lambda>K. as ! K * bs ! K) [0..<n])"
  by (simp add: inner_def zip_nth_upt [of as n bs] comp_def)

lemma zip_concat_blocks:
  "\<forall>b \<in> set bs. length (f b) = length (g b)
    \<Longrightarrow> zip (concat (map f bs)) (concat (map g bs)) = concat (map (\<lambda>b. zip (f b) (g b)) bs)"
  by (induction bs) simp_all

lemma concat_blocks:
  "length xs = m * n \<Longrightarrow> concat (map (\<lambda>k. take n (drop (k * n) xs)) [0..<m]) = xs"
proof (induction m arbitrary: xs)
  case 0
  then show ?case by simp
next
  case (Suc m)
  have "[0..<Suc m] = 0 # map Suc [0..<m]"
    by (simp add: upt_conv_Cons map_Suc_upt del: upt_Suc)
  then have "concat (map (\<lambda>k. take n (drop (k * n) xs)) [0..<Suc m])
      = take n xs @ concat (map (\<lambda>k. take n (drop (k * n) (drop n xs))) [0..<m])"
    by (simp add: comp_def add.commute del: upt_Suc)
  also have "concat (map (\<lambda>k. take n (drop (k * n) (drop n xs))) [0..<m]) = drop n xs"
    using Suc.prems by (intro Suc.IH) simp
  finally show ?case by simp
qed

lemma sum_list_concat_map:
  fixes h :: "'b \<Rightarrow> 'a::comm_ring_1"
  shows "sum_list (map h (concat xss)) = sum_list (map (\<lambda>xs. sum_list (map h xs)) xss)"
  by (induction xss) simp_all

lemma inner_concat_blocks:
  fixes gy :: "'a::comm_ring_1 list"
  assumes "length gy = m * n" "\<forall>k < m. length (f k) = n"
  shows "inner (concat (map f [0..<m])) gy
       = sum_list (map (\<lambda>k. inner (f k) (take n (drop (k * n) gy))) [0..<m])"
proof -
  have b: "\<forall>k \<in> set [0..<m]. length (f k) = length (take n (drop (k * n) gy))"
  proof
    fix k assume "k \<in> set [0..<m]"
    then have k: "k < m" by simp
    then have "Suc k * n \<le> m * n" by (intro mult_le_mono1) simp
    then have "k * n + n \<le> length gy" using assms(1) by simp
    then show "length (f k) = length (take n (drop (k * n) gy))" using assms(2) k by simp
  qed
  have "inner (concat (map f [0..<m])) gy
      = inner (concat (map f [0..<m])) (concat (map (\<lambda>k. take n (drop (k * n) gy)) [0..<m]))"
    by (simp only: concat_blocks [OF assms(1)])
  also have "\<dots> = sum_list (map (\<lambda>k. inner (f k) (take n (drop (k * n) gy))) [0..<m])"
    unfolding inner_def zip_concat_blocks [OF b]
    by (simp add: sum_list_concat_map comp_def)
  finally show ?thesis .
qed

lemma block_sum:
  fixes xs :: "'a::comm_ring_1 list"
  assumes len: "length vp = n" "length uq = n" "length g = n" "length w = n"
    and nn: "\<forall>a \<in> set vp. 0 \<le> a" "\<forall>a \<in> set uq. 0 \<le> a"
  shows "sum_list (map (\<lambda>(i, w). xs ! nat i * w)
           (zip (map (\<lambda>a. int off + a) (map2 (\<lambda>a b. a * int W + b) vp uq)) (map2 (*) g w)))
       = sum_list (map (\<lambda>K. xs ! (off + nat (vp ! K) * W + nat (uq ! K)) * (g ! K * w ! K))
           [0..<n])"
proof -
  have z: "zip (map (\<lambda>a. int off + a) (map2 (\<lambda>a b. a * int W + b) vp uq)) (map2 (*) g w)
      = map (\<lambda>K. (int off + (vp ! K * int W + uq ! K), g ! K * w ! K)) [0..<n]"
    using len by (intro nth_equalityI) simp_all
  have "xs ! nat (int off + (vp ! K * int W + uq ! K)) * (g ! K * w ! K)
      = xs ! (off + nat (vp ! K) * W + nat (uq ! K)) * (g ! K * w ! K)" if "K < n" for K
  proof -
    from that len nn have "0 \<le> vp ! K" "0 \<le> uq ! K" by simp_all
    then have "nat (int off + (vp ! K * int W + uq ! K)) = off + nat (vp ! K) * W + nat (uq ! K)"
      by (simp add: nat_add_distrib nat_mult_distrib)
    then show ?thesis by simp
  qed
  then have m: "map (\<lambda>K. xs ! nat (int off + (vp ! K * int W + uq ! K)) * (g ! K * w ! K)) [0..<n]
      = map (\<lambda>K. xs ! (off + nat (vp ! K) * W + nat (uq ! K)) * (g ! K * w ! K)) [0..<n]"
    by (intro map_cong refl) simp
  have "sum_list (map (\<lambda>(i, w). xs ! nat i * w)
           (zip (map (\<lambda>a. int off + a) (map2 (\<lambda>a b. a * int W + b) vp uq)) (map2 (*) g w)))
      = sum_list (map (\<lambda>(i, w). xs ! nat i * w)
           (map (\<lambda>K. (int off + (vp ! K * int W + uq ! K), g ! K * w ! K)) [0..<n]))"
    by (simp only: z)
  also have "\<dots> = sum_list (map (\<lambda>K. xs ! nat (int off + (vp ! K * int W + uq ! K))
                                   * (g ! K * w ! K)) [0..<n])"
    by (simp add: comp_def)
  also have "\<dots> = sum_list (map (\<lambda>K. xs ! (off + nat (vp ! K) * W + nat (uq ! K))
                                   * (g ! K * w ! K)) [0..<n])"
    by (rule arg_cong [OF m])
  finally show ?thesis .
qed


lemma adjoint_block:
  fixes xs :: "'a::comm_ring_1 list"
  assumes len: "length v = n" "length u = n" "length vw = n" "length uw = n" "length g = n"
    and pos: "0 < H" "0 < W"
    and inv: "\<forall>a \<in> set v. 0 \<le> a \<and> a < int H"
    and inu: "\<forall>a \<in> set u. 0 \<le> a \<and> a < int W"
  shows "inner (map (engine_pixel xs H W v u vw uw bc) [0..<n]) g
       = sum_list (map (\<lambda>(i, w). xs ! nat i * w)
           (zip (map (\<lambda>a. int (bc * (H * W)) + a)
                   (concat (map (\<lambda>(p, q). map2 (\<lambda>a b. a * int W + b)
                                  ([v, clamp_next H v] ! p) ([u, clamp_next W u] ! q))
                              [(0, 0), (0, 1), (1, 0), (1, 1)])))
                (concat (map (\<lambda>w. map2 (*) g w) (weights uw vw)))))"
proof -
  define off where "off = bc * (H * W)"
  define cv where "cv = clamp_next H v"
  define cu where "cu = clamp_next W u"
  define W0 where "W0 = map2 (-) (map (\<lambda>a. 1 - a) uw) (map2 (*) (map (\<lambda>a. 1 - a) uw) vw)"
  define W1 where "W1 = map2 (-) uw (map2 (*) uw vw)"
  define W2 where "W2 = map2 (*) (map (\<lambda>a. 1 - a) uw) vw"
  define W3 where "W3 = map2 (*) uw vw"
  define t where "t = (\<lambda>vp uq w K.
      xs ! (off + nat (vp ! K) * W + nat (uq ! K)) * (g ! K * (w :: 'a list) ! K))"
  have wl: "weights uw vw = [W0, W1, W2, W3]"
    by (simp add: weights_def Let_def W0_def W1_def W2_def W3_def)
  have lw: "length W0 = n" "length W1 = n" "length W2 = n" "length W3 = n"
    using len by (simp_all add: W0_def W1_def W2_def W3_def)
  have lc: "length cv = n" "length cu = n"
    using len by (simp_all add: cv_def cu_def clamp_next_def)
  have nv: "\<forall>a \<in> set v. 0 \<le> a" and nu: "\<forall>a \<in> set u. 0 \<le> a"
    using inv inu by simp_all
  have ncv: "\<forall>a \<in> set cv. 0 \<le> a" using inv pos by (auto simp: cv_def clamp_next_def)
  have ncu: "\<forall>a \<in> set cu. 0 \<le> a" using inu pos by (auto simp: cu_def clamp_next_def)
  have bs: "sum_list (map (\<lambda>(i, w). xs ! nat i * w)
           (zip (map (\<lambda>a. int off + a) (map2 (\<lambda>a b. a * int W + b) vp uq)) (map2 (*) g w)))
       = sum_list (map (t vp uq w) [0..<n])"
    if "length vp = n" "length uq = n" "length w = n" "\<forall>a \<in> set vp. 0 \<le> a"
       "\<forall>a \<in> set uq. 0 \<le> a" for vp uq w
    unfolding t_def using block_sum [OF that(1,2) len(5) that(3,4,5)] .
  have rhs: "sum_list (map (\<lambda>(i, w). xs ! nat i * w)
           (zip (map (\<lambda>a. int off + a)
                   (concat (map (\<lambda>(p, q). map2 (\<lambda>a b. a * int W + b)
                                  ([v, cv] ! p) ([u, cu] ! q))
                              [(0, 0), (0, 1), (1, 0), (1, 1)])))
                (concat (map (\<lambda>w. map2 (*) g w) [W0, W1, W2, W3]))))
      = sum_list (map (t v u W0) [0..<n]) + (sum_list (map (t v cu W1) [0..<n])
        + (sum_list (map (t cv u W2) [0..<n]) + sum_list (map (t cv cu W3) [0..<n])))"
    using len lc lw
    by (simp add: bs [OF len(1) len(2) lw(1) nv nu, symmetric]
        bs [OF len(1) lc(2) lw(2) nv ncu, symmetric]
        bs [OF lc(1) len(2) lw(3) ncv nu, symmetric]
        bs [OF lc(1) lc(2) lw(4) ncv ncu, symmetric])
  have px: "engine_pixel xs H W v u vw uw bc K * g ! K
      = t v u W0 K + (t v cu W1 K + (t cv u W2 K + t cv cu W3 K))" if K: "K < n" for K
  proof -
    from K len inv inu have v0: "0 \<le> v ! K" and u0: "0 \<le> u ! K" by simp_all
    from K lc ncv ncu have v1: "0 \<le> cv ! K" and u1: "0 \<le> cu ! K" by simp_all
    from K len have c: "cv ! K = min (v ! K + 1) (int H - 1)" "cu ! K = min (u ! K + 1) (int W - 1)"
      by (simp_all add: cv_def cu_def clamp_next_def)
    from K len have w: "W0 ! K = (1 - uw ! K) - (1 - uw ! K) * vw ! K"
        "W1 ! K = uw ! K - uw ! K * vw ! K" "W2 ! K = (1 - uw ! K) * vw ! K"
        "W3 ! K = uw ! K * vw ! K"
      by (simp_all add: W0_def W1_def W2_def W3_def)
    have g: "getitem xs H W bc r s = xs ! (off + nat r * W + nat s)" if "0 \<le> r" "0 \<le> s" for r s
      using that by (simp add: getitem_def norm_index_def off_def)
    have "engine_pixel xs H W v u vw uw bc K
        = xs ! (off + nat (v ! K) * W + nat (u ! K)) * W0 ! K
          + (xs ! (off + nat (v ! K) * W + nat (cu ! K)) * W1 ! K
          + (xs ! (off + nat (cv ! K) * W + nat (u ! K)) * W2 ! K
          + (xs ! (off + nat (cv ! K) * W + nat (cu ! K)) * W3 ! K + 0)))"
      unfolding engine_pixel_def Let_def c [symmetric]
      using v0 u0 v1 u1 by (simp only: g w)
    then show ?thesis by (simp add: t_def algebra_simps)
  qed
  have "inner (map (engine_pixel xs H W v u vw uw bc) [0..<n]) g
      = sum_list (map (\<lambda>K. engine_pixel xs H W v u vw uw bc K * g ! K) [0..<n])"
  proof -
    have "inner (map (engine_pixel xs H W v u vw uw bc) [0..<n]) g
        = sum_list (map (\<lambda>K. map (engine_pixel xs H W v u vw uw bc) [0..<n] ! K * g ! K) [0..<n])"
      using len(5) by (intro inner_nth) simp_all
    also have "map (\<lambda>K. map (engine_pixel xs H W v u vw uw bc) [0..<n] ! K * g ! K) [0..<n]
        = map (\<lambda>K. engine_pixel xs H W v u vw uw bc K * g ! K) [0..<n]"
      by (intro map_cong refl) simp
    finally show ?thesis .
  qed
  also have "\<dots> = sum_list (map (\<lambda>K. t v u W0 K + (t v cu W1 K + (t cv u W2 K + t cv cu W3 K)))
                       [0..<n])"
    by (rule arg_cong [where f = sum_list], intro map_cong refl) (simp add: px)
  also have "\<dots> = sum_list (map (t v u W0) [0..<n]) + (sum_list (map (t v cu W1) [0..<n])
        + (sum_list (map (t cv u W2) [0..<n]) + sum_list (map (t cv cu W3) [0..<n])))"
    by (simp add: sum_list_addf)
  finally have "inner (map (engine_pixel xs H W v u vw uw bc) [0..<n]) g
      = sum_list (map (\<lambda>(i, w). xs ! nat i * w)
           (zip (map (\<lambda>a. int off + a)
                   (concat (map (\<lambda>(p, q). map2 (\<lambda>a b. a * int W + b)
                                  ([v, cv] ! p) ([u, cu] ! q))
                              [(0, 0), (0, 1), (1, 0), (1, 1)])))
                (concat (map (\<lambda>w. map2 (*) g w) [W0, W1, W2, W3]))))"
    by (simp only: rhs)
  then show ?thesis unfolding wl off_def cv_def cu_def .
qed


lemma flat_index_range:
  assumes "0 \<le> a" "a < int H" "0 \<le> b" "b < int W"
  shows "0 \<le> a * int W + b \<and> a * int W + b < int (H * W)"
proof -
  from assms have "a * int W \<le> (int H - 1) * int W" by (intro mult_right_mono) simp_all
  then have "a * int W + b < int H * int W" using assms by (simp add: algebra_simps)
  moreover from assms have "0 \<le> a * int W" by simp
  ultimately show ?thesis using assms by simp
qed

lemma map2_index_range:
  assumes "\<forall>a \<in> set vp. 0 \<le> a \<and> a < int H" "\<forall>b \<in> set uq. 0 \<le> b \<and> b < int W"
  shows "\<forall>e \<in> set (map2 (\<lambda>a b. a * int W + b) vp uq). 0 \<le> e \<and> e < int (H * W)"
proof
  fix e assume "e \<in> set (map2 (\<lambda>a b. a * int W + b) vp uq)"
  then obtain a b where ab: "(a, b) \<in> set (zip vp uq)" "e = a * int W + b" by auto
  then have "a \<in> set vp" "b \<in> set uq" by (auto dest: set_zip_leftD set_zip_rightD)
  with assms ab(2) show "0 \<le> e \<and> e < int (H * W)"
    using flat_index_range [of a H b W] by simp
qed

lemma interpolate_grad_inner:
  fixes x gy :: "'a::comm_ring_1 ndarray"
  assumes lx: "length xs = B * C * (H * W)"
    and sgy: "shape gy = [B, C, oh, ow]" and wgy: "wf_array gy"
    and sg: "shape v = [oh, ow]" "shape u = [oh, ow]" "shape vw = [oh, ow]" "shape uw = [oh, ow]"
    and wf: "wf_array v" "wf_array u" "wf_array vw" "wf_array uw"
    and pos: "0 < H" "0 < W"
    and inv: "\<forall>a \<in> set (data v). 0 \<le> a \<and> a < int H"
    and inu: "\<forall>a \<in> set (data u). 0 \<le> a \<and> a < int W"
  shows "\<exists>gx. interpolate_grad_bilinear_cpu gy v u vw uw H W = Inr gx
      \<and> shape gx = [B, C, H, W] \<and> dtype gx = dtype gy \<and> length (data gx) = B * C * (H * W)
      \<and> inner xs (data gx)
        = inner (concat (map (\<lambda>bc. map (engine_pixel xs H W (data v) (data u)
                                          (data vw) (data uw) bc) [0..<oh * ow])
                   [0..<B * C])) (data gy)"
proof -
  define n where "n = oh * ow"
  define M where "M = H * W"
  define BC where "BC = B * C"
  define cv where "cv = clamp_next H (data v)"
  define cu where "cu = clamp_next W (data u)"
  define idx4 where "idx4 = plane_indices [data v, cv] [data u, cu] W"
  define I where "I = (\<lambda>bc. map (\<lambda>a. int (bc * M) + a) idx4)"
  define G where "G = (\<lambda>bc. concat (map (\<lambda>w. map2 (*) (take n (drop (bc * n) (data gy))) w)
                         (weights (data uw) (data vw))))"
  define upd where "upd = (\<lambda>(i, w) (acc :: 'a list). acc[nat i := acc ! nat i + w])"
  from sg wf have len: "length (data v) = n" "length (data u) = n"
      "length (data vw) = n" "length (data uw) = n"
    by (simp_all add: wf_array_def n_def)
  from sgy wgy have lgy: "length (data gy) = BC * n"
    by (simp add: wf_array_def n_def BC_def algebra_simps)
  from pos have M: "0 < M" by (simp add: M_def)
  have lc: "length cv = n" "length cu = n"
    using len by (simp_all add: cv_def cu_def clamp_next_def)
  have rcv: "\<forall>a \<in> set cv. 0 \<le> a \<and> a < int H"
    using inv pos by (auto simp: cv_def clamp_next_def)
  have rcu: "\<forall>a \<in> set cu. 0 \<le> a \<and> a < int W"
    using inu pos by (auto simp: cu_def clamp_next_def)
  have l4: "length idx4 = 4 * n" using len lc by (simp add: idx4_def plane_indices_def)
  have r4: "\<forall>e \<in> set idx4. 0 \<le> e \<and> e < int M"
    using map2_index_range [OF inv inu] map2_index_range [OF inv rcu]
      map2_index_range [OF rcv inu] map2_index_range [OF rcv rcu]
    by (auto simp: idx4_def plane_indices_def M_def)
  have lg: "length (take n (drop (bc * n) (data gy))) = n" if "bc < BC" for bc
  proof -
    from that have "Suc bc * n \<le> BC * n" by (intro mult_le_mono1) simp
    with lgy show ?thesis by simp
  qed
  have lG: "length (G bc) = 4 * n" if "bc < BC" for bc
    using lg [OF that] len by (simp add: G_def weights_def Let_def)
  have lI: "length (I bc) = 4 * n" for bc by (simp add: I_def l4)
  have rI: "\<forall>i \<in> set (I bc). 0 \<le> i \<and> i < int (BC * M)" if "bc < BC" for bc
  proof
    fix i assume "i \<in> set (I bc)"
    then obtain e where e: "e \<in> set idx4" "i = int (bc * M) + e" by (auto simp: I_def)
    from that have "Suc bc * M \<le> BC * M" by (intro mult_le_mono1) simp
    then have "int (bc * M) + int M \<le> int (BC * M)"
      by (metis of_nat_add of_nat_le_iff mult_Suc add.commute)
    with e r4 show "0 \<le> i \<and> i < int (BC * M)" by auto
  qed
  define indices where "indices = concat (map I [0..<BC])"
  define gycol where "gycol = concat (map G [0..<BC])"
  have offs: "py_range 0 (int (BC * M)) (int M) = map (\<lambda>bc. int (bc * M)) [0..<BC]"
    using py_range_offsets [OF M, of 0 BC] by simp
  have ind: "batch_indices idx4 (py_range 0 (int (BC * M)) (int M)) = indices"
    unfolding offs indices_def I_def batch_indices_def by (simp add: comp_def)
  have gyc: "gycol_of (data gy) BC n (weights (data uw) (data vw)) = gycol"
    by (simp add: gycol_def G_def gycol_of_def)
  have blocks: "\<forall>bc \<in> set [0..<BC]. length (I bc) = length (G bc)"
    using lI lG by simp
  have lind: "length gycol = length indices"
  proof -
    have "map length (map G [0..<BC]) = map length (map I [0..<BC])"
      using blocks by simp
    then show ?thesis by (simp only: gycol_def indices_def length_concat)
  qed
  have rind: "\<forall>i \<in> set indices. 0 \<le> i \<and> i < int (BC * M)"
    using rI by (auto simp: indices_def)
  have bc: "bincount indices gycol (BC * M)
      = Inr (fold upd (zip indices gycol) (replicate (BC * M) 0))"
    unfolding upd_def by (rule bincount_in_range [OF lind rind])
  have acc: "length xs = length (replicate (BC * M) (0::'a))"
    using lx by (simp add: BC_def M_def)
  have es: "\<forall>(i, w) \<in> set (zip indices gycol). 0 \<le> i \<and> nat i < length (replicate (BC * M) (0::'a))"
  proof (clarify, intro conjI)
    fix i w assume "(i, w) \<in> set (zip indices gycol)"
    then have "i \<in> set indices" by (rule set_zip_leftD)
    with rind have i: "0 \<le> i" "i < int (BC * M)" by simp_all
    then show "0 \<le> i" by simp
    from i have "nat i < BC * M" by (simp only: nat_less_iff)
    then show "nat i < length (replicate (BC * M) (0::'a))" by simp
  qed
  have fold: "length (fold upd (zip indices gycol) (replicate (BC * M) 0)) = BC * M"
    "inner xs (fold upd (zip indices gycol) (replicate (BC * M) 0))
      = sum_list (map (\<lambda>(i, w). xs ! nat i * w) (zip indices gycol))"
    using inner_fold_bincount [OF acc es] unfolding upd_def
    by (simp_all add: inner_replicate_zero)
  have "sum_list (map (\<lambda>(i, w). xs ! nat i * w) (zip indices gycol))
      = sum_list (map (\<lambda>bc. sum_list (map (\<lambda>(i, w). xs ! nat i * w) (zip (I bc) (G bc))))
          [0..<BC])"
    unfolding indices_def gycol_def zip_concat_blocks [OF blocks]
    by (simp add: sum_list_concat_map comp_def)
  also have "map (\<lambda>bc. sum_list (map (\<lambda>(i, w). xs ! nat i * w) (zip (I bc) (G bc)))) [0..<BC]
      = map (\<lambda>bc. inner (map (engine_pixel xs H W (data v) (data u) (data vw) (data uw) bc)
                             [0..<n]) (take n (drop (bc * n) (data gy)))) [0..<BC]"
  proof (intro map_cong refl)
    fix bc assume "bc \<in> set [0..<BC]"
    then have "bc < BC" by simp
    from adjoint_block [OF len lg [OF this] pos inv inu, of xs bc]
    show "sum_list (map (\<lambda>(i, w). xs ! nat i * w) (zip (I bc) (G bc)))
        = inner (map (engine_pixel xs H W (data v) (data u) (data vw) (data uw) bc) [0..<n])
            (take n (drop (bc * n) (data gy)))"
      by (simp add: I_def G_def idx4_def plane_indices_def cv_def cu_def M_def)
  qed
  also have "sum_list (map (\<lambda>bc. inner (map (engine_pixel xs H W (data v) (data u) (data vw)
                   (data uw) bc) [0..<n]) (take n (drop (bc * n) (data gy)))) [0..<BC])
      = inner (concat (map (\<lambda>bc. map (engine_pixel xs H W (data v) (data u)
                                          (data vw) (data uw) bc) [0..<n]) [0..<BC])) (data gy)"
    by (rule inner_concat_blocks [OF lgy, symmetric]) simp
  finally have adj: "inner xs (fold upd (zip indices gycol) (replicate (BC * M) 0))
      = inner (concat (map (\<lambda>bc. map (engine_pixel xs H W (data v) (data u)
                                          (data vw) (data uw) bc) [0..<n]) [0..<BC])) (data gy)"
    using fold(2) by simp
  have assoc: "B * C * H * W = B * C * (H * W)" by simp
  have "interpolate_grad_bilinear_cpu gy v u vw uw H W
      = (if M = 0 then Inl ZeroDivisionError
         else case bincount (batch_indices idx4 (py_range 0 (int (BC * M)) (int M)))
                     (gycol_of (data gy) BC n (weights (data uw) (data vw))) (BC * M) of
                Inl e \<Rightarrow> Inl e
              | Inr gx \<Rightarrow>
                  if length gx \<noteq> BC * M then Inl ValueError
                  else Inr \<lparr>dtype = dtype gy, shape = [B, C, H, W], data = gx\<rparr>)"
    unfolding interpolate_grad_bilinear_cpu_def Let_def
      cv_def [symmetric] cu_def [symmetric]
    by (simp only: unpack4_def sgy sg list.case sum.case prod.case simp_thms if_False
          idx4_def BC_def M_def n_def assoc)
  also have "\<dots> = Inr \<lparr>dtype = dtype gy, shape = [B, C, H, W],
             data = fold upd (zip indices gycol) (replicate (BC * M) 0)\<rparr>"
    unfolding ind gyc bc using M fold(1) by simp
  finally show ?thesis using adj fold(1) by (simp add: n_def BC_def M_def)
qed


text \<open>
  Claim C1. For every input \<open>x\<close> of shape \<open>(B, C, H, W)\<close>, every \<open>gy\<close> of shape
  \<open>(B, C, out_H, out_W)\<close> (all dimensions positive) and every grid of base indices
  inside the image and of weights, both engines return, and the inner product of the
  forward result with \<open>gy\<close> equals the inner product of \<open>x\<close> with the gradient result:
  the gradient engine is the adjoint of the forward engine. The arithmetic is exact
  (any commutative ring, the rationals and the reals among them). The grids that the
  two operator nodes build meet the hypothesis on the indices (lemma
  \<open>operators_adjoint\<close>).
\<close>

theorem gradient_is_adjoint:
  fixes x gy :: "'a::comm_ring_1 ndarray"
  assumes sx: "shape x = [B, C, H, W]" and wx: "wf_array x"
    and sgy: "shape gy = [B, C, oh, ow]" and wgy: "wf_array gy"
    and sg: "shape v = [oh, ow]" "shape u = [oh, ow]" "shape vw = [oh, ow]" "shape uw = [oh, ow]"
    and wf: "wf_array v" "wf_array u" "wf_array vw" "wf_array uw"
    and pos: "0 < B" "0 < C" "0 < H" "0 < W" "0 < oh" "0 < ow"
    and inv: "\<forall>a \<in> set (data v). 0 \<le> a \<and> a < int H"
    and inu: "\<forall>a \<in> set (data u). 0 \<le> a \<and> a < int W"
  shows "\<exists>y gx. interpolate_bilinear_cpu x v u vw uw = Inr y
      \<and> interpolate_grad_bilinear_cpu gy v u vw uw H W = Inr gx
      \<and> shape y = shape gy \<and> shape gx = shape x
      \<and> inner (data y) (data gy) = inner (data x) (data gx)"
proof -
  from sx wx have lx: "length (data x) = B * C * (H * W)"
    by (simp add: wf_array_def algebra_simps)
  obtain gx where gx: "interpolate_grad_bilinear_cpu gy v u vw uw H W = Inr gx"
      "shape gx = [B, C, H, W]"
      "inner (data x) (data gx)
        = inner (concat (map (\<lambda>bc. map (engine_pixel (data x) H W (data v) (data u)
                                          (data vw) (data uw) bc) [0..<oh * ow])
                   [0..<B * C])) (data gy)"
    using interpolate_grad_inner [OF lx sgy wgy sg wf pos(3,4) inv inu] by blast
  show ?thesis
    using interpolate_bilinear_cpu_pixels [OF sx sg wf pos inv inu] gx sx sgy by simp
qed

theorem gradient_is_adjoint_witness:
  "\<exists>y gx. interpolate_bilinear_cpu
        \<lparr>dtype = Float32, shape = [1, 1, 2, 2], data = [1, 2, 3, 4 :: rat]\<rparr>
        \<lparr>dtype = Intp, shape = [2, 3], data = [0, 0, 0, 1, 1, 1]\<rparr>
        \<lparr>dtype = Intp, shape = [2, 3], data = [0, 0, 1, 0, 0, 1]\<rparr>
        \<lparr>dtype = Float32, shape = [2, 3], data = [0, 0, 0, 1 / 4, 1 / 4, 1 / 4]\<rparr>
        \<lparr>dtype = Float32, shape = [2, 3], data = [0, 1 / 2, 0, 0, 1 / 2, 0]\<rparr> = Inr y
    \<and> interpolate_grad_bilinear_cpu
        \<lparr>dtype = Float32, shape = [1, 1, 2, 3], data = [1, 10, 100, 1000, 10000, 100000]\<rparr>
        \<lparr>dtype = Intp, shape = [2, 3], data = [0, 0, 0, 1, 1, 1]\<rparr>
        \<lparr>dtype = Intp, shape = [2, 3], data = [0, 0, 1, 0, 0, 1]\<rparr>
        \<lparr>dtype = Float32, shape = [2, 3], data = [0, 0, 0, 1 / 4, 1 / 4, 1 / 4]\<rparr>
        \<lparr>dtype = Float32, shape = [2, 3], data = [0, 1 / 2, 0, 0, 1 / 2, 0]\<rparr> 2 2 = Inr gx
    \<and> shape y = [1, 1, 2, 3] \<and> shape gx = [1, 1, 2, 2]
    \<and> inner (data y) [1, 10, 100, 1000, 10000, 100000] = inner [1, 2, 3, 4] (data gx)"
  using gradient_is_adjoint [of
      "\<lparr>dtype = Float32, shape = [1, 1, 2, 2], data = [1, 2, 3, 4 :: rat]\<rparr>" 1 1 2 2
      "\<lparr>dtype = Float32, shape = [1, 1, 2, 3], data = [1, 10, 100, 1000, 10000, 100000]\<rparr>" 2 3
      "\<lparr>dtype = Intp, shape = [2, 3], data = [0, 0, 0, 1, 1, 1]\<rparr>"
      "\<lparr>dtype = Intp, shape = [2, 3], data = [0, 0, 1, 0, 0, 1]\<rparr>"
      "\<lparr>dtype = Float32, shape = [2, 3], data = [0, 0, 0, 1 / 4, 1 / 4, 1 / 4]\<rparr>"
      "\<lparr>dtype = Float32, shape = [2, 3], data = [0, 1 / 2, 0, 0, 1 / 2, 0]\<rparr>"]
  by (simp add: wf_array_def)

section \<open>Zero weights select one input pixel\<close>

lemma broadcast_rows_nth:
  "K < length col * n \<Longrightarrow> concat (map (replicate n) col) ! K = col ! (K div n)"
proof (induction col arbitrary: K)
  case Nil
  then show ?case by simp
next
  case (Cons a col)
  show ?case
  proof (cases "K < n")
    case True
    then show ?thesis by (simp add: nth_append)
  next
    case False
    then have n: "n \<le> K" by simp
    with Cons.prems have "K - n < length col * n" by simp
    then have "concat (map (replicate n) col) ! (K - n) = col ! ((K - n) div n)"
      by (rule Cons.IH)
    moreover from n Cons.prems have "0 < n" by (cases n) simp_all
    with n have "K div n = Suc ((K - n) div n)" by (simp add: le_div_geq)
    ultimately show ?thesis using False by (simp add: nth_append)
  qed
qed

lemma broadcast_cols_nth:
  "K < m * length row \<Longrightarrow> concat (replicate m row) ! K = row ! (K mod length row)"
proof (induction m arbitrary: K)
  case 0
  then show ?case by simp
next
  case (Suc m)
  show ?case
  proof (cases "K < length row")
    case True
    then show ?thesis by (simp add: nth_append)
  next
    case False
    then have n: "length row \<le> K" by simp
    with Suc.prems have "K - length row < m * length row" by simp
    then have "concat (replicate m row) ! (K - length row) = row ! ((K - length row) mod length row)"
      by (rule Suc.IH)
    moreover from n have "K mod length row = (K - length row) mod length row"
      by (simp add: le_mod_geq)
    ultimately show ?thesis using False by (simp add: nth_append)
  qed
qed

lemma broadcast_rows_length: "length (concat (map (replicate n) col)) = length col * n"
  by (induction col) simp_all

lemma broadcast_cols_length: "length (concat (replicate m row)) = m * length row"
  by (induction m) simp_all

lemma broadcast_rows_set: "set (concat (map (replicate n) col)) \<subseteq> set col"
  by (induction col) auto

lemma broadcast_cols_set: "set (concat (replicate m row)) \<subseteq> set row"
  by (induction m) auto

lemma engine_pixel_select:
  fixes xs :: "'a::comm_ring_1 list"
  assumes "uw ! K = 0" "vw ! K = 0"
  shows "engine_pixel xs H W v u vw uw bc K = getitem xs H W bc (v ! K) (u ! K)"
  using assms by (simp add: engine_pixel_def Let_def)

lemma select_pipeline:
  fixes x :: "'a::comm_ring_1 ndarray"
  assumes sx: "shape x = [B, C, H, W]"
    and pos: "0 < B" "0 < C" "0 < H" "0 < W" "0 < oh" "0 < ow"
    and lv: "length vs = oh" and lu: "length us = ow"
    and inv: "\<forall>a \<in> set vs. 0 \<le> a \<and> a < int H"
    and inu: "\<forall>a \<in> set us. 0 \<le> a \<and> a < int W"
  shows "interpolate_bilinear_cpu x (broadcast_rows Intp vs ow) (broadcast_cols Intp oh us)
           (broadcast_rows dt (replicate oh 0) ow) (broadcast_cols dt oh (replicate ow 0))
       = Inr \<lparr>dtype = dtype x, shape = [B, C, oh, ow],
              data = concat (map (\<lambda>bc. map (\<lambda>K. data x ! (bc * (H * W)
                                 + nat (vs ! (K div ow)) * W + nat (us ! (K mod ow))))
                                [0..<oh * ow]) [0..<B * C])\<rparr>"
proof -
  let ?v = "broadcast_rows Intp vs ow" and ?u = "broadcast_cols Intp oh us"
  let ?vw = "broadcast_rows dt (replicate oh (0::'a)) ow"
  let ?uw = "broadcast_cols dt oh (replicate ow (0::'a))"
  have sg: "shape ?v = [oh, ow]" "shape ?u = [oh, ow]" "shape ?vw = [oh, ow]" "shape ?uw = [oh, ow]"
    using lv lu by (simp_all add: broadcast_rows_def broadcast_cols_def)
  have wf: "wf_array ?v" "wf_array ?u" "wf_array ?vw" "wf_array ?uw"
    using lv lu
    by (simp_all add: wf_array_def broadcast_rows_def broadcast_cols_def
          broadcast_rows_length broadcast_cols_length)
  have inv': "\<forall>a \<in> set (data ?v). 0 \<le> a \<and> a < int H"
    using inv broadcast_rows_set [of ow vs] by (auto simp: broadcast_rows_def)
  have inu': "\<forall>a \<in> set (data ?u). 0 \<le> a \<and> a < int W"
    using inu broadcast_cols_set [of oh us] by (auto simp: broadcast_cols_def)
  have px: "engine_pixel (data x) H W (data ?v) (data ?u) (data ?vw) (data ?uw) bc K
      = data x ! (bc * (H * W) + nat (vs ! (K div ow)) * W + nat (us ! (K mod ow)))"
    if K: "K < oh * ow" for bc K
  proof -
    from K have d: "K div ow < oh"
      by (simp add: less_mult_imp_div_less)
    from pos have m: "K mod ow < ow" by simp
    have v: "data ?v ! K = vs ! (K div ow)"
      using K lv by (simp add: broadcast_rows_def broadcast_rows_nth)
    have u: "data ?u ! K = us ! (K mod ow)"
      using K lu broadcast_cols_nth [of K oh us] by (simp add: broadcast_cols_def)
    have "length (data ?vw) = oh * ow"
      using broadcast_rows_length [of ow "replicate oh (0::'a)"]
      by (simp add: broadcast_rows_def)
    with K have "data ?vw ! K \<in> set (data ?vw)"
      by (intro nth_mem) simp
    then have vw: "data ?vw ! K = 0"
      using broadcast_rows_set [of ow "replicate oh (0::'a)"]
      by (auto simp: broadcast_rows_def)
    have "length (data ?uw) = oh * ow"
      using broadcast_cols_length [of oh "replicate ow (0::'a)"]
      by (simp add: broadcast_cols_def)
    with K have "data ?uw ! K \<in> set (data ?uw)"
      by (intro nth_mem) simp
    then have uw: "data ?uw ! K = 0"
      using broadcast_cols_set [of oh "replicate ow (0::'a)"]
      by (auto simp: broadcast_cols_def)
    from d lv inv have "0 \<le> vs ! (K div ow)" by simp
    moreover from m lu inu have "0 \<le> us ! (K mod ow)" by simp
    ultimately show ?thesis
      unfolding engine_pixel_select [OF uw vw] v u
      by (simp add: getitem_def norm_index_def)
  qed
  have "map (\<lambda>bc. map (engine_pixel (data x) H W (data ?v) (data ?u) (data ?vw) (data ?uw) bc)
                    [0..<oh * ow]) [0..<B * C]
      = map (\<lambda>bc. map (\<lambda>K. data x ! (bc * (H * W)
                                 + nat (vs ! (K div ow)) * W + nat (us ! (K mod ow))))
                    [0..<oh * ow]) [0..<B * C]"
    by (intro map_cong refl) (simp add: px)
  then have "concat (map (\<lambda>bc. map (engine_pixel (data x) H W (data ?v) (data ?u) (data ?vw)
                    (data ?uw) bc) [0..<oh * ow]) [0..<B * C])
      = concat (map (\<lambda>bc. map (\<lambda>K. data x ! (bc * (H * W)
                                 + nat (vs ! (K div ow)) * W + nat (us ! (K mod ow))))
                    [0..<oh * ow]) [0..<B * C])"
    by (rule arg_cong)
  then show ?thesis
    by (simp only: interpolate_bilinear_cpu_pixels [OF sx sg wf pos inv' inu'])
qed

section \<open>Nearest mode\<close>

lemma trunc_of_int [simp]: "trunc (of_int k) = k"
  by (simp add: trunc_def)

lemma astype_intp_ints:
  "astype_intp (map (\<lambda>i. Fin (of_int (f i))) is) = Inr (map f is)"
  by (simp add: astype_intp_def is_finite_def fin_value_def list_all_iff comp_def)

lemma astype_float32_zeros:
  "astype_float32 (map (\<lambda>_. Fin 0) xs) = Inr (replicate (length xs) 0)"
  by (simp add: astype_float32_def is_finite_def fin_value_def list_all_iff comp_def
        map_replicate_const)

lemma astype_float32_zeros_comp:
  "astype_float32 (map ((\<lambda>_. Fin 0) \<circ> g) xs) = Inr (replicate (length xs) 0)"
  using astype_float32_zeros [of "map g xs"] by simp

lemma coords_nearest_index:
  "out_n \<noteq> 0 \<Longrightarrow>
    coords_nearest rnd n out_n = Inr (map (\<lambda>i. Fin (of_int (nearest_index rnd n out_n i))) [0..<nat out_n])"
  by (simp add: coords_nearest_def nearest_index_def Let_def)

lemma index_grids_nearest:
  assumes "0 < oh" "0 < ow"
  shows "index_grids rnd (oh, ow) (H, W) ''nearest'' align dt
    = Inr (broadcast_rows Intp (map (nearest_index rnd H oh) [0..<nat oh]) (nat ow),
           broadcast_cols Intp (nat oh) (map (nearest_index rnd W ow) [0..<nat ow]),
           broadcast_rows dt (replicate (nat oh) 0) (nat ow),
           broadcast_cols dt (nat oh) (replicate (nat ow) 0))"
  using assms
  by (simp add: index_grids_def compute_indices_and_weights_def coords_nearest_index
        astype_intp_ints astype_float32_zeros_comp)

lemma nearest_index_range:
  assumes rnd: "\<forall>q. 0 \<le> q \<longrightarrow> 0 \<le> rnd q" and "0 < n" "0 < out_n"
  shows "0 \<le> nearest_index rnd n out_n i \<and> nearest_index rnd n out_n i < int n"
proof -
  have "0 \<le> (of_nat n :: rat) / of_int out_n" using assms by simp
  with rnd have "0 \<le> rnd (of_nat n / of_int out_n)" by simp
  then have "0 \<le> of_nat i * rnd (of_nat n / of_int out_n)" by simp
  with rnd have "0 \<le> rnd (of_nat i * rnd (of_nat n / of_int out_n))" by simp
  then have "0 \<le> \<lfloor>rnd (of_nat i * rnd (of_nat n / of_int out_n))\<rfloor>" by simp
  with assms show ?thesis by (simp add: nearest_index_def)
qed

lemma nearest_index_exact: "nearest_index id n out_n i = claimed_nearest_index n out_n i"
  by (simp add: nearest_index_def claimed_nearest_index_def)

lemma concat_blocks_nth:
  assumes "\<forall>k < m. length (f k) = n" "k < m" "j < n"
  shows "concat (map f [0..<m]) ! (k * n + j) = f k ! j"
  using assms
proof (induction m)
  case 0
  then show ?case by simp
next
  case (Suc m)
  have len: "length (concat (map f [0..<m])) = m * n"
    using Suc.prems(1) by (induction m) simp_all
  show ?case
  proof (cases "k < m")
    case True
    then have "k * n + j < m * n"
      using Suc.prems(3)
      by (metis add.commute mult_Suc Suc_leI less_le_trans mult_le_mono1 add_less_cancel_right
          nat_add_left_cancel_less)
    with True Suc show ?thesis by (simp add: nth_append len)
  next
    case False
    with Suc.prems have "k = m" by simp
    then show ?thesis by (simp add: nth_append len)
  qed
qed

lemma resize_nearest_pixels:
  assumes dt: "dtype x = Float32" and sx: "shape x = [B, C, H, W]"
    and pos: "0 < B" "0 < C" "0 < H" "0 < W" "0 < oh" "0 < ow"
    and rnd: "\<forall>q. 0 \<le> q \<longrightarrow> 0 \<le> rnd q"
  shows "resize_images rnd x (oh, ow) ''nearest'' align
       = Inr \<lparr>dtype = Float32, shape = [B, C, nat oh, nat ow],
              data = concat (map (\<lambda>bc. map (\<lambda>K. data x ! (bc * (H * W)
                         + nat (nearest_index rnd H oh (K div nat ow)) * W
                         + nat (nearest_index rnd W ow (K mod nat ow))))
                       [0..<nat oh * nat ow]) [0..<B * C])\<rparr>"
proof -
  let ?vs = "map (nearest_index rnd H oh) [0..<nat oh]"
  let ?us = "map (nearest_index rnd W ow) [0..<nat ow]"
  have inv: "\<forall>a \<in> set ?vs. 0 \<le> a \<and> a < int H"
    using nearest_index_range [OF rnd pos(3,5)] by simp
  have inu: "\<forall>a \<in> set ?us. 0 \<le> a \<and> a < int W"
    using nearest_index_range [OF rnd pos(4,6)] by simp
  from pos have p: "0 < nat oh" "0 < nat ow" by simp_all
  have sel: "interpolate_bilinear_cpu x (broadcast_rows Intp ?vs (nat ow))
           (broadcast_cols Intp (nat oh) ?us)
           (broadcast_rows Float32 (replicate (nat oh) 0) (nat ow))
           (broadcast_cols Float32 (nat oh) (replicate (nat ow) 0))
       = Inr \<lparr>dtype = dtype x, shape = [B, C, nat oh, nat ow],
              data = concat (map (\<lambda>bc. map (\<lambda>K. data x ! (bc * (H * W)
                                 + nat (?vs ! (K div nat ow)) * W + nat (?us ! (K mod nat ow))))
                                [0..<nat oh * nat ow]) [0..<B * C])\<rparr>"
    by (rule select_pipeline [OF sx pos(1-4) p _ _ inv inu]) simp_all
  have "map (\<lambda>bc. map (\<lambda>K. data x ! (bc * (H * W)
                 + nat (?vs ! (K div nat ow)) * W + nat (?us ! (K mod nat ow))))
              [0..<nat oh * nat ow]) [0..<B * C]
      = map (\<lambda>bc. map (\<lambda>K. data x ! (bc * (H * W)
                 + nat (nearest_index rnd H oh (K div nat ow)) * W
                 + nat (nearest_index rnd W ow (K mod nat ow))))
              [0..<nat oh * nat ow]) [0..<B * C]"
  proof (intro map_cong refl)
    fix bc K assume "K \<in> set [0..<nat oh * nat ow]"
    then have "K < nat oh * nat ow" by simp
    then have "K div nat ow < nat oh" "K mod nat ow < nat ow"
      using p by (simp_all add: less_mult_imp_div_less)
    then show "data x ! (bc * (H * W) + nat (?vs ! (K div nat ow)) * W + nat (?us ! (K mod nat ow)))
        = data x ! (bc * (H * W) + nat (nearest_index rnd H oh (K div nat ow)) * W
                 + nat (nearest_index rnd W ow (K mod nat ow)))"
      by simp
  qed
  then have "concat (map (\<lambda>bc. map (\<lambda>K. data x ! (bc * (H * W)
                 + nat (?vs ! (K div nat ow)) * W + nat (?us ! (K mod nat ow))))
              [0..<nat oh * nat ow]) [0..<B * C])
      = concat (map (\<lambda>bc. map (\<lambda>K. data x ! (bc * (H * W)
                 + nat (nearest_index rnd H oh (K div nat ow)) * W
                 + nat (nearest_index rnd W ow (K mod nat ow))))
              [0..<nat oh * nat ow]) [0..<B * C])"
    by (rule arg_cong)
  with sel show ?thesis
    using pos
    by (simp add: resize_images_def ResizeImages_init_def ResizeImages_apply_def
          FunctionNode_apply_def check_type_forward_def expect_def ResizeImages_forward_def
          unpack2_def dt sx index_grids_nearest)
qed


lemma pow2_pos: "0 < pow2 e"
  by (simp add: pow2_def)

lemma round_half_even_nonneg: "0 \<le> m \<Longrightarrow> 0 \<le> round_half_even m"
proof -
  assume "0 \<le> m"
  then have "0 \<le> \<lfloor>m\<rfloor>" by simp
  then show ?thesis by (simp add: round_half_even_def Let_def)
qed

lemma fl64_nonneg: "\<forall>q. 0 \<le> q \<longrightarrow> 0 \<le> fl64 q"
proof (intro allI impI)
  fix q :: rat assume q: "0 \<le> q"
  show "0 \<le> fl64 q"
  proof (cases "q = 0")
    case True
    then show ?thesis by (simp add: fl64_def round_to_precision_def)
  next
    case False
    with q have pos: "0 < q" by simp
    define ulp where "ulp = pow2 (ilog2 q - 52)"
    have u: "0 < ulp" unfolding ulp_def by (rule pow2_pos)
    with pos have "0 \<le> q / ulp" by simp
    then have "0 \<le> round_half_even (q / ulp)" by (rule round_half_even_nonneg)
    then have "0 \<le> of_int (round_half_even (q / ulp)) * ulp" using u by simp
    with pos False show ?thesis
      by (simp add: fl64_def round_to_precision_def Let_def ulp_def)
  qed
qed

lemma block_index: "n < B \<Longrightarrow> c < C \<Longrightarrow> n * C + c < B * (C::nat)"
proof -
  assume "n < B" "c < C"
  then have "n * C + c < Suc n * C" by simp
  also from \<open>n < B\<close> have "\<dots> \<le> B * C" by (intro mult_le_mono1) simp
  finally show ?thesis .
qed

text \<open>
  Claim C6, as amended. In nearest mode every output pixel is exactly one input pixel (the
  weights are zero, the blend selects the corner \<open>(v0, u0)\<close>): the pixel at row
  \<open>min(floor(rnd(i * rnd(H / out_H))), H - 1)\<close> and column
  \<open>min(floor(rnd(j * rnd(W / out_W))), W - 1)\<close>, where the scale is rounded to float64
  before it is multiplied by the output index. In exact arithmetic (\<open>rnd = id\<close>) this
  is the row \<open>min(floor(i * H / out_H), H - 1)\<close> of the claim.
\<close>

theorem nearest_selects_one_pixel:
  assumes dt: "dtype x = Float32" and sx: "shape x = [B, C, H, W]"
    and pos: "0 < B" "0 < C" "0 < H" "0 < W" "0 < oh" "0 < ow"
    and rnd: "\<forall>q. 0 \<le> q \<longrightarrow> 0 \<le> rnd q"
    and idx: "n < B" "c < C" "i < nat oh" "j < nat ow"
  shows "\<exists>y. resize_images rnd x (oh, ow) ''nearest'' align = Inr y
      \<and> shape y = [B, C, nat oh, nat ow]
      \<and> at4 y n c i j = at4 x n c (nat (nearest_index rnd H oh i)) (nat (nearest_index rnd W ow j))
      \<and> nearest_index id H oh i = claimed_nearest_index H oh i
      \<and> nearest_index id W ow j = claimed_nearest_index W ow j"
proof -
  define g where "g = (\<lambda>bc K. data x ! (bc * (H * W)
                         + nat (nearest_index rnd H oh (K div nat ow)) * W
                         + nat (nearest_index rnd W ow (K mod nat ow))))"
  define y where "y = \<lparr>dtype = Float32, shape = [B, C, nat oh, nat ow],
              data = concat (map (\<lambda>bc. map (g bc) [0..<nat oh * nat ow]) [0..<B * C])\<rparr>"
  have r: "resize_images rnd x (oh, ow) ''nearest'' align = Inr y"
    unfolding y_def g_def by (rule resize_nearest_pixels [OF dt sx pos rnd])
  have bc: "n * C + c < B * C" using idx by (intro block_index)
  have "i * nat ow + j < Suc i * nat ow" using idx by simp
  also have "\<dots> \<le> nat oh * nat ow" using idx by (intro mult_le_mono1) simp
  finally have K: "i * nat ow + j < nat oh * nat ow" .
  have dm: "(i * nat ow + j) div nat ow = i" "(i * nat ow + j) mod nat ow = j"
    using idx by simp_all
  have "at4 y n c i j = data y ! ((n * C + c) * (nat oh * nat ow) + (i * nat ow + j))"
    by (simp add: at4_def y_def algebra_simps)
  also have "\<dots> = map (g (n * C + c)) [0..<nat oh * nat ow] ! (i * nat ow + j)"
    unfolding y_def using bc K by (simp add: concat_blocks_nth)
  also have "\<dots> = g (n * C + c) (i * nat ow + j)" using K by simp
  also have "\<dots> = at4 x n c (nat (nearest_index rnd H oh i)) (nat (nearest_index rnd W ow j))"
    unfolding g_def dm by (simp add: at4_def sx algebra_simps)
  finally have "at4 y n c i j
      = at4 x n c (nat (nearest_index rnd H oh i)) (nat (nearest_index rnd W ow j))" .
  with r show ?thesis by (simp add: y_def nearest_index_exact)
qed

lemma nearest_index_49: "nearest_index fl64 2 98 49 = 0"
  by code_simp

lemma nearest_index_0: "nearest_index fl64 1 1 0 = 0"
  by code_simp

lemma nearest_index_0_Suc: "nearest_index fl64 (Suc 0) 1 0 = 0"
  using nearest_index_0 by simp

lemma claimed_nearest_index_49: "claimed_nearest_index 2 98 49 = 1"
  by code_simp

theorem nearest_selects_one_pixel_witness:
  "\<exists>y. resize_images fl64 \<lparr>dtype = Float32, shape = [1, 1, 2, 1], data = [10, 20]\<rparr> (98, 1)
           ''nearest'' True = Inr y
      \<and> shape y = [1, 1, 98, 1]
      \<and> at4 y 0 0 49 0 = at4 \<lparr>dtype = Float32, shape = [1, 1, 2, 1], data = [10, 20]\<rparr> 0 0
           (nat (nearest_index fl64 2 98 49)) (nat (nearest_index fl64 1 1 0))"
  using nearest_selects_one_pixel [of "\<lparr>dtype = Float32, shape = [1, 1, 2, 1], data = [10, 20]\<rparr>"
      1 1 2 1 98 1 fl64 0 0 49 0 True] fl64_nonneg
  by auto

text \<open>
  The claim C6 as it is stated fails in float64: for an image of two rows resized to 98
  rows, \<open>49 * fl64 (2 / 98)\<close> rounds to the float64 just below 1, so output row 49 is
  input row 0, where the claimed formula gives row \<open>floor(49 * 2 / 98) = 1\<close>.
\<close>

theorem nearest_row_49_of_98:
  "output_at (resize_images fl64 \<lparr>dtype = Float32, shape = [1, 1, 2, 1], data = [10, 20]\<rparr>
       (98, 1) ''nearest'' True) 0 0 49 0 = Some 10
   \<and> at4 \<lparr>dtype = Float32, shape = [1, 1, 2, 1], data = [10, 20 :: rat]\<rparr> 0 0
        (nat (claimed_nearest_index 2 98 49)) (nat (claimed_nearest_index 1 1 0)) = 20"
proof -
  have "resize_images fl64 \<lparr>dtype = Float32, shape = [1, 1, 2, 1], data = [10, 20]\<rparr>
       (98, 1) ''nearest'' True
     = Inr \<lparr>dtype = Float32, shape = [1, 1, nat 98, nat 1],
              data = concat (map (\<lambda>bc. map (\<lambda>K.
                         data \<lparr>dtype = Float32, shape = [1, 1, 2, 1], data = [10, 20]\<rparr>
                         ! (bc * (2 * 1)
                         + nat (nearest_index fl64 2 98 (K div nat 1)) * 1
                         + nat (nearest_index fl64 1 1 (K mod nat 1))))
                       [0..<nat 98 * nat 1]) [0..<1 * 1])\<rparr>"
    by (rule resize_nearest_pixels [OF _ _ _ _ _ _ _ _ fl64_nonneg]) simp_all
  then have "output_at (resize_images fl64 \<lparr>dtype = Float32, shape = [1, 1, 2, 1], data = [10, 20]\<rparr>
       (98, 1) ''nearest'' True) 0 0 49 0 = Some 10"
    by (simp add: output_at_def at4_def nearest_index_49 nearest_index_0_Suc)
  moreover have "claimed_nearest_index 1 1 0 = 0" by (simp add: claimed_nearest_index_def)
  ultimately show ?thesis by (simp add: at4_def claimed_nearest_index_49)
qed

subsection \<open>Rounding to binary64 is a float rounding\<close>

text \<open>
  \<open>ilog2\<close> is the binary exponent, a rounded positive number stays in the binade of its
  argument (closed above), and from this rounding to \<open>p\<close> digits is monotone. A half of
  an integer up to \<open>2 ^ 53\<close> is a multiple of its unit in the last place, so \<open>fl64\<close>
  returns it as it is.
\<close>

lemma pow2_powi: "pow2 e = 2 powi e"
  by (simp add: pow2_def power_int_def field_simps)

lemma pow2_add: "pow2 (a + b) = pow2 a * pow2 b"
  by (simp add: pow2_powi power_int_add)

lemma pow2_mono: "a \<le> b \<Longrightarrow> pow2 a \<le> pow2 b"
  by (simp add: pow2_powi power_int_increasing)

lemma pow2_of_nat: "pow2 (int n) = 2 ^ n"
  by (simp add: pow2_def)

lemma pow2_gt0: "0 < pow2 e"
  by (simp add: pow2_powi)

lemma ilog2_bounds:
  assumes a: "0 < a"
  shows "pow2 (ilog2 a) \<le> a \<and> a < pow2 (ilog2 a + 1)"
proof -
  obtain p q where pq: "quotient_of a = (p, q)" by (cases "quotient_of a")
  then have q0: "0 < q" by (rule quotient_of_denom_pos)
  from pq have aq: "a = of_int p / of_int q" by (rule quotient_of_div)
  with a q0 have p0: "0 < p" by (simp add: zero_less_divide_iff)
  define bp where "bp = bitlen p"
  define bq where "bq = bitlen q"
  from bitlen_bounds [OF p0] have p1: "2 ^ nat (bp - 1) \<le> p" and p2: "p < 2 ^ nat bp"
    by (simp_all add: bp_def)
  from bitlen_bounds [OF q0] have q1: "2 ^ nat (bq - 1) \<le> q" and q2: "q < 2 ^ nat bq"
    by (simp_all add: bq_def)
  have bp0: "0 < bp" using p0 by (simp add: bp_def bitlen_alt_def)
  have bq0: "0 < bq" using q0 by (simp add: bq_def bitlen_alt_def)
  have P1: "pow2 (bp - 1) \<le> of_int p"
  proof -
    have "(of_int (2 ^ nat (bp - 1)) :: rat) \<le> of_int p" using p1 by (simp only: of_int_le_iff)
    then show ?thesis using bp0 by (simp add: pow2_def)
  qed
  have P2: "of_int p < pow2 bp"
  proof -
    have "(of_int p :: rat) < of_int (2 ^ nat bp)" using p2 by (simp only: of_int_less_iff)
    then show ?thesis using bp0 by (simp add: pow2_def)
  qed
  have Q1: "pow2 (bq - 1) \<le> of_int q"
  proof -
    have "(of_int (2 ^ nat (bq - 1)) :: rat) \<le> of_int q" using q1 by (simp only: of_int_le_iff)
    then show ?thesis using bq0 by (simp add: pow2_def)
  qed
  have Q2: "of_int q < pow2 bq"
  proof -
    have "(of_int q :: rat) < of_int (2 ^ nat bq)" using q2 by (simp only: of_int_less_iff)
    then show ?thesis using bq0 by (simp add: pow2_def)
  qed
  define d where "d = bp - bq"
  have qpos: "(0::rat) < of_int q" using q0 by simp
  have up: "a < pow2 (d + 1)"
  proof -
    have "pow2 bp = pow2 (d + 1) * pow2 (bq - 1)"
      by (simp add: pow2_add [symmetric] d_def)
    also have "\<dots> \<le> pow2 (d + 1) * of_int q"
      using Q1 pow2_gt0 [of "d + 1"] by (simp add: mult_left_mono)
    finally have "of_int p < pow2 (d + 1) * of_int q" using P2 by simp
    then show ?thesis unfolding aq using qpos by (simp add: pos_divide_less_eq)
  qed
  have lo: "pow2 (d - 1) < a"
  proof -
    have "pow2 (d - 1) * of_int q < pow2 (d - 1) * pow2 bq"
      using Q2 pow2_gt0 [of "d - 1"] by (simp add: mult_strict_left_mono)
    also have "\<dots> = pow2 (bp - 1)" by (simp add: pow2_add [symmetric] d_def)
    finally have "pow2 (d - 1) * of_int q < of_int p" using P1 by simp
    then show ?thesis unfolding aq using qpos by (simp add: pos_less_divide_eq)
  qed
  show ?thesis
  proof (cases "pow2 d \<le> a")
    case True
    then have "ilog2 a = d" by (simp add: ilog2_def pq Let_def d_def bp_def bq_def)
    with True up show ?thesis by simp
  next
    case False
    then have "ilog2 a = d - 1" by (simp add: ilog2_def pq Let_def d_def bp_def bq_def)
    with False lo show ?thesis by simp
  qed
qed

lemma ilog2_unique:
  assumes "pow2 e \<le> a" "a < pow2 (e + 1)"
  shows "ilog2 a = e"
proof -
  from assms have a: "0 < a" using pow2_gt0 [of e] by simp
  from ilog2_bounds [OF a] have b: "pow2 (ilog2 a) \<le> a" "a < pow2 (ilog2 a + 1)" by simp_all
  have "\<not> ilog2 a < e"
  proof
    assume "ilog2 a < e"
    then have "pow2 (ilog2 a + 1) \<le> pow2 e" by (intro pow2_mono) simp
    with b assms show False by simp
  qed
  moreover have "\<not> e < ilog2 a"
  proof
    assume "e < ilog2 a"
    then have "pow2 (e + 1) \<le> pow2 (ilog2 a)" by (intro pow2_mono) simp
    with b assms show False by simp
  qed
  ultimately show ?thesis by simp
qed

lemma round_half_even_of_int: "round_half_even (of_int k) = k"
  by (simp add: round_half_even_def)

lemma round_half_even_bounds:
  "of_int (round_half_even m) \<le> m + 1 / 2 \<and> m - 1 / 2 \<le> of_int (round_half_even m)"
proof -
  define f where "f = (of_int \<lfloor>m\<rfloor> :: rat)"
  have f: "f \<le> m" "m < f + 1" unfolding f_def by linarith+
  show ?thesis
  proof (cases "m - f < 1 / 2")
    case True
    then have "of_int (round_half_even m) = f" by (simp add: round_half_even_def Let_def f_def)
    with True f show ?thesis by linarith
  next
    case False
    then have "of_int (round_half_even m) = f \<and> m - f = 1 / 2
        \<or> of_int (round_half_even m) = f + 1"
      by (simp add: round_half_even_def Let_def f_def)
    with False f show ?thesis by linarith
  qed
qed

lemma round_half_even_mono:
  assumes "a \<le> b"
  shows "round_half_even a \<le> round_half_even b"
proof (cases "\<lfloor>a\<rfloor> = \<lfloor>b\<rfloor>")
  case True
  with assms have "a - of_int \<lfloor>a\<rfloor> \<le> b - of_int \<lfloor>b\<rfloor>" by simp
  with True show ?thesis by (auto simp: round_half_even_def Let_def)
next
  case False
  with assms have "\<lfloor>a\<rfloor> < \<lfloor>b\<rfloor>" using floor_mono [OF assms] by simp
  then have "\<lfloor>a\<rfloor> + 1 \<le> \<lfloor>b\<rfloor>" by simp
  moreover have "round_half_even a \<le> \<lfloor>a\<rfloor> + 1" by (simp add: round_half_even_def Let_def)
  moreover have "\<lfloor>b\<rfloor> \<le> round_half_even b" by (simp add: round_half_even_def Let_def)
  ultimately show ?thesis by linarith
qed


lemma round_to_precision_pos:
  assumes "0 < x"
  shows "round_to_precision p x
    = of_int (round_half_even (x / pow2 (ilog2 x - (int p - 1)))) * pow2 (ilog2 x - (int p - 1))"
  using assms by (simp add: round_to_precision_def Let_def)

lemma round_to_precision_minus: "round_to_precision p (- x) = - round_to_precision p x"
  by (simp add: round_to_precision_def Let_def sgn_minus)

lemma round_to_precision_binade:
  assumes p: "0 < p" and x: "0 < x"
  shows "pow2 (ilog2 x) \<le> round_to_precision p x \<and> round_to_precision p x \<le> pow2 (ilog2 x + 1)"
proof -
  define e where "e = ilog2 x"
  define ulp where "ulp = pow2 (e - (int p - 1))"
  have u0: "0 < ulp" by (simp add: ulp_def pow2_gt0)
  from ilog2_bounds [OF x] have b: "pow2 e \<le> x" "x < pow2 (e + 1)" by (simp_all add: e_def)
  have lo: "pow2 e = of_int (2 ^ (p - 1)) * ulp"
  proof -
    have "pow2 e = pow2 (int (p - 1)) * ulp"
      using p unfolding ulp_def pow2_add [symmetric] by (simp add: of_nat_diff)
    then show ?thesis by (simp add: pow2_of_nat)
  qed
  have hi: "pow2 (e + 1) = of_int (2 ^ p) * ulp"
  proof -
    have "pow2 (e + 1) = pow2 (int p) * ulp"
      unfolding ulp_def pow2_add [symmetric] by simp
    then show ?thesis by (simp add: pow2_of_nat)
  qed
  define r where "r = round_half_even (x / ulp)"
  have v: "round_to_precision p x = of_int r * ulp"
    by (simp add: round_to_precision_pos [OF x] r_def ulp_def e_def)
  have "of_int (2 ^ (p - 1)) \<le> x / ulp" using b(1) u0 unfolding lo by (simp add: pos_le_divide_eq)
  then have "round_half_even (of_int (2 ^ (p - 1))) \<le> r"
    unfolding r_def by (rule round_half_even_mono)
  then have "2 ^ (p - 1) \<le> r" by (simp only: round_half_even_of_int)
  then have "(of_int (2 ^ (p - 1)) :: rat) \<le> of_int r" by (simp only: of_int_le_iff)
  then have 1: "of_int (2 ^ (p - 1)) * ulp \<le> of_int r * ulp"
    using u0 by (simp only: mult_le_cancel_right_pos)
  have "x / ulp \<le> of_int (2 ^ p)" using b(2) u0 unfolding hi by (simp add: pos_divide_le_eq)
  then have "r \<le> round_half_even (of_int (2 ^ p))"
    unfolding r_def by (rule round_half_even_mono)
  then have "r \<le> 2 ^ p" by (simp only: round_half_even_of_int)
  then have "(of_int r :: rat) \<le> of_int (2 ^ p)" by (simp only: of_int_le_iff)
  then have 2: "of_int r * ulp \<le> of_int (2 ^ p) * ulp"
    using u0 by (simp only: mult_le_cancel_right_pos)
  from 1 2 show ?thesis unfolding v e_def [symmetric] lo hi by simp
qed

lemma ilog2_mono:
  assumes "0 < a" "a \<le> b"
  shows "ilog2 a \<le> ilog2 b"
proof (rule ccontr)
  assume "\<not> ilog2 a \<le> ilog2 b"
  then have "pow2 (ilog2 b + 1) \<le> pow2 (ilog2 a)" by (intro pow2_mono) simp
  moreover from assms have "0 < b" by simp
  ultimately show False using ilog2_bounds [OF assms(1)] ilog2_bounds [OF \<open>0 < b\<close>] assms(2)
    by simp
qed

lemma round_to_precision_mono_pos:
  assumes p: "0 < p" and a: "0 < a" and ab: "a \<le> b"
  shows "round_to_precision p a \<le> round_to_precision p b"
proof -
  from a ab have b: "0 < b" by simp
  show ?thesis
  proof (cases "ilog2 a = ilog2 b")
    case True
    define ulp where "ulp = pow2 (ilog2 b - (int p - 1))"
    have u0: "0 < ulp" by (simp add: ulp_def pow2_gt0)
    from ab u0 have "a / ulp \<le> b / ulp" by (simp add: divide_right_mono)
    then have "round_half_even (a / ulp) \<le> round_half_even (b / ulp)"
      by (rule round_half_even_mono)
    then have "(of_int (round_half_even (a / ulp)) :: rat) \<le> of_int (round_half_even (b / ulp))"
      by (simp only: of_int_le_iff)
    then have "of_int (round_half_even (a / ulp)) * ulp \<le> of_int (round_half_even (b / ulp)) * ulp"
      using u0 by (simp only: mult_le_cancel_right_pos)
    then show ?thesis
      by (simp only: round_to_precision_pos [OF a] round_to_precision_pos [OF b] True ulp_def)
  next
    case False
    with ilog2_mono [OF a ab] have "ilog2 a + 1 \<le> ilog2 b" by simp
    then have "pow2 (ilog2 a + 1) \<le> pow2 (ilog2 b)" by (rule pow2_mono)
    with round_to_precision_binade [OF p a] round_to_precision_binade [OF p b]
    show ?thesis by linarith
  qed
qed

lemma round_to_precision_nonneg:
  assumes "0 < p" "0 \<le> x"
  shows "0 \<le> round_to_precision p x"
proof (cases "x = 0")
  case True
  then show ?thesis by (simp add: round_to_precision_def)
next
  case False
  with assms have x: "0 < x" by simp
  from round_to_precision_binade [OF assms(1) x] pow2_gt0 [of "ilog2 x"] show ?thesis by linarith
qed

lemma round_to_precision_mono:
  assumes p: "0 < p" and ab: "a \<le> b"
  shows "round_to_precision p a \<le> round_to_precision p b"
proof (cases "0 < a")
  case True
  with p show ?thesis using ab by (rule round_to_precision_mono_pos)
next
  case a: False
  show ?thesis
  proof (cases "0 \<le> b")
    case True
    from a have "0 \<le> - a" by simp
    from round_to_precision_nonneg [OF p this] have "round_to_precision p a \<le> 0"
      by (simp add: round_to_precision_minus)
    with round_to_precision_nonneg [OF p True] show ?thesis by linarith
  next
    case False
    then have "0 < - b" "- b \<le> - a" using ab by simp_all
    from round_to_precision_mono_pos [OF p this] show ?thesis
      by (simp add: round_to_precision_minus)
  qed
qed

lemma round_to_precision_exact:
  assumes x: "0 < x" and m: "x / pow2 (ilog2 x - (int p - 1)) = of_int m"
  shows "round_to_precision p x = x"
proof -
  have "pow2 (ilog2 x - (int p - 1)) \<noteq> 0" using pow2_gt0 [of "ilog2 x - (int p - 1)"] by simp
  then have "x = of_int m * pow2 (ilog2 x - (int p - 1))"
    using m by (simp add: field_simps)
  then show ?thesis
    by (simp only: round_to_precision_pos [OF x] m round_half_even_of_int)
qed

lemma fl64_half_pos:
  assumes k: "0 < k" "k \<le> 2 ^ 53"
  shows "fl64 (of_int k / 2) = of_int k / 2"
proof -
  define x where "x = (of_int k / 2 :: rat)"
  have x: "0 < x" using k by (simp add: x_def)
  define e where "e = ilog2 x"
  from ilog2_bounds [OF x] have b: "pow2 e \<le> x" "x < pow2 (e + 1)" by (simp_all add: e_def)
  have "(of_int k :: rat) \<le> of_int (2 ^ 53)" using k(2) by (simp only: of_int_le_iff)
  then have xb: "x \<le> 2 ^ 52" by (simp add: x_def)
  have e52: "e \<le> 52"
  proof (rule ccontr)
    assume "\<not> e \<le> 52"
    then have "pow2 53 \<le> pow2 e" by (intro pow2_mono) simp
    with b(1) xb show False by (simp add: pow2_def)
  qed
  have "\<exists>m. x / pow2 (e - (int 53 - 1)) = of_int m"
  proof (cases "e = 52")
    case True
    with b(1) have "2 ^ 52 \<le> x" by (simp add: pow2_def)
    with xb have "x = of_int (2 ^ 52)" by simp
    with True show ?thesis by (simp add: pow2_def)
  next
    case False
    with e52 have le: "e \<le> 51" by simp
    have "x / pow2 (e - 52) = x * pow2 (52 - e)"
    proof -
      have "pow2 (e - 52) * pow2 (52 - e) = 1" unfolding pow2_add [symmetric] by (simp add: pow2_def)
      then show ?thesis using pow2_gt0 [of "e - 52"] by (simp add: field_simps)
    qed
    also have "pow2 (52 - e) = 2 * pow2 (51 - e)"
      using pow2_add [of 1 "51 - e"] by (simp add: pow2_def)
    also have "x * (2 * pow2 (51 - e)) = of_int k * pow2 (51 - e)" by (simp add: x_def)
    also have "pow2 (51 - e) = of_int (2 ^ nat (51 - e))" using le by (simp add: pow2_def)
    also have "of_int k * of_int (2 ^ nat (51 - e)) = (of_int (k * 2 ^ nat (51 - e)) :: rat)"
      by (simp only: of_int_mult)
    finally have "x / pow2 (e - 52) = of_int (k * 2 ^ nat (51 - e))" .
    moreover have "e - (int 53 - 1) = e - 52" by simp
    ultimately have "x / pow2 (e - (int 53 - 1)) = of_int (k * 2 ^ nat (51 - e))"
      by (simp only:)
    then show ?thesis ..
  qed
  then obtain m where "x / pow2 (ilog2 x - (int 53 - 1)) = of_int m" unfolding e_def by blast
  from round_to_precision_exact [OF x this] show ?thesis by (simp add: fl64_def x_def)
qed

lemma float_rounding_fl64: "float_rounding fl64"
proof -
  have "fl64 (of_int k / 2) = of_int k / 2" if k: "\<bar>k\<bar> \<le> 2 ^ 53" for k :: int
  proof -
    consider "k = 0" | "0 < k" | "k < 0" by linarith
    then show ?thesis
    proof cases
      case 1
      then show ?thesis by (simp add: fl64_def round_to_precision_def)
    next
      case 2
      with k show ?thesis by (intro fl64_half_pos) simp_all
    next
      case 3
      with k have "fl64 (of_int (- k) / 2) = of_int (- k) / 2" by (intro fl64_half_pos) simp_all
      then have "fl64 (- (of_int k / 2)) = - (of_int k / 2)" by simp
      then show ?thesis unfolding fl64_def round_to_precision_minus by simp
    qed
  qed
  moreover have "fl64 a \<le> fl64 b" if "a \<le> b" for a b
    unfolding fl64_def using that by (intro round_to_precision_mono) simp_all
  ultimately show ?thesis unfolding float_rounding_def by blast
qed

subsection \<open>Indices of the generator under a float rounding\<close>

text \<open>
  What the index bounds need from the rounding of float64: it is monotone and exact on
  the halves of integers up to \<open>2 ^ 53\<close>. With it every coordinate that the three formulas
  return as a finite number lies in \<open>[0, n)\<close>; the one coordinate that is not finite is the
  quotient \<open>0 / 0\<close> of the align\_corners formula for a single output row or column.
\<close>

lemma float_rounding_id: "float_rounding id"
  by (simp add: float_rounding_def)

lemma float_rounding_mono: "float_rounding rnd \<Longrightarrow> a \<le> b \<Longrightarrow> rnd a \<le> rnd b"
  by (simp add: float_rounding_def)

lemma float_rounding_int:
  assumes "float_rounding rnd" "\<bar>k\<bar> \<le> 2 ^ 52"
  shows "rnd (of_int k) = of_int k"
proof -
  from assms(2) have "\<bar>2 * k\<bar> \<le> 2 ^ 53" by simp
  with assms(1) have "rnd (of_int (2 * k) / 2) = of_int (2 * k) / 2"
    unfolding float_rounding_def by blast
  then show ?thesis by simp
qed

lemma float_rounding_half:
  assumes "float_rounding rnd" "\<bar>k\<bar> \<le> 2 ^ 53"
  shows "rnd (of_int k / 2) = of_int k / 2"
  using assms unfolding float_rounding_def by blast

lemma float_rounding_zero: "float_rounding rnd \<Longrightarrow> rnd 0 = 0"
  using float_rounding_int [of rnd 0] by simp

lemma float_rounding_nonneg: "float_rounding rnd \<Longrightarrow> 0 \<le> q \<Longrightarrow> 0 \<le> rnd q"
  using float_rounding_mono [of rnd 0 q] float_rounding_zero [of rnd] by simp

lemma coords_align_corners_range:
  assumes fr: "float_rounding rnd" and n: "0 < n" and o: "1 < out_n"
    and sz: "2 * out_n * int n \<le> 2 ^ 53"
    and c: "c \<in> set (coords_align_corners rnd n out_n)"
  shows "\<exists>q. c = Fin q \<and> 0 \<le> q \<and> q < of_nat n"
proof -
  from c obtain i where i: "i < nat out_n"
      and ci: "c = np_divide rnd (rnd (of_nat i * of_int (int n - 1))) (out_n - 1)"
    by (auto simp: coords_align_corners_def)
  define k where "k = int i * (int n - 1)"
  from i o have io: "int i \<le> out_n - 1" by simp
  from n have n1: "0 \<le> int n - 1" by simp
  have k0: "0 \<le> k" using n1 by (simp add: k_def)
  have "k \<le> (out_n - 1) * (int n - 1)" unfolding k_def using io n1 by (intro mult_right_mono)
  also have "\<dots> \<le> out_n * int n" using o n by (intro mult_mono) simp_all
  finally have kb: "k \<le> out_n * int n" .
  with sz k0 have "\<bar>k\<bar> \<le> 2 ^ 52" by simp
  then have rk: "rnd (of_int k) = of_int k" by (rule float_rounding_int [OF fr])
  have e: "(of_nat i * of_int (int n - 1) :: rat) = of_int k" by (simp add: k_def)
  define q where "q = rnd (of_int k / of_int (out_n - 1))"
  have cq: "c = Fin q" unfolding ci e rk q_def using o by (simp add: np_divide_def)
  from o have d: "(0::rat) < of_int (out_n - 1)" by simp
  from k0 d have "(0::rat) \<le> of_int k / of_int (out_n - 1)" by simp
  then have q0: "0 \<le> q" unfolding q_def by (rule float_rounding_nonneg [OF fr])
  have "(of_int k :: rat) \<le> of_int ((out_n - 1) * (int n - 1))"
    using \<open>k \<le> (out_n - 1) * (int n - 1)\<close> by (simp only: of_int_le_iff)
  then have "(of_int k :: rat) / of_int (out_n - 1) \<le> of_int (int n - 1)"
    using d by (simp add: pos_divide_le_eq mult.commute)
  then have "q \<le> rnd (of_int (int n - 1))" unfolding q_def by (rule float_rounding_mono [OF fr])
  moreover have "\<bar>int n - 1\<bar> \<le> 2 ^ 52"
  proof -
    from o n have "int n \<le> out_n * int n" by simp
    moreover from sz have "out_n * int n \<le> 2 ^ 52" by simp
    ultimately have "int n \<le> 2 ^ 52" by (rule order_trans)
    with n show ?thesis by simp
  qed
  then have "rnd (of_int (int n - 1)) = of_int (int n - 1)" by (rule float_rounding_int [OF fr])
  ultimately have "q \<le> of_int (int n - 1)" by simp
  then have "q < of_nat n" by simp
  with cq q0 show ?thesis by blast
qed


lemma coords_half_pixel_range:
  assumes fr: "float_rounding rnd" and n: "0 < n"
    and sz: "2 * out_n * int n \<le> 2 ^ 53"
    and c: "c \<in> set (coords_half_pixel rnd n out_n)"
  shows "\<exists>q. c = Fin q \<and> 0 \<le> q \<and> q < of_nat n"
proof -
  from c obtain i where i: "i < nat out_n"
      and ci: "c = Fin (max (rnd (rnd (rnd (rnd (of_nat i + 1 / 2) * of_nat n) / of_int out_n)
                                - 1 / 2)) 0)"
    by (auto simp: coords_half_pixel_def)
  from i have o: "0 < out_n" and io: "2 * int i + 1 < 2 * out_n" by simp_all
  from n have n1: "1 \<le> int n" by simp
  from io n1 have "(2 * int i + 1) * int n \<le> (2 * out_n) * int n"
    by (intro mult_right_mono) simp_all
  with sz have b2: "(2 * int i + 1) * int n \<le> 2 ^ 53" by simp
  have "(2 * int i + 1) * 1 \<le> (2 * int i + 1) * int n" using n1 by (intro mult_left_mono) simp_all
  then have "2 * int i + 1 \<le> (2 * int i + 1) * int n" by (simp only: mult_1_right)
  then have b1: "2 * int i + 1 \<le> 2 ^ 53" using b2 by (rule order_trans)
  have bn: "2 * int n \<le> 2 ^ 53"
  proof -
    from o have "1 \<le> out_n" by simp
    then have "1 * (2 * int n) \<le> out_n * (2 * int n)" by (intro mult_right_mono) simp_all
    then have "2 * int n \<le> 2 * out_n * int n" by (simp only: mult_1 mult.commute mult.left_commute)
    then show ?thesis using sz by (rule order_trans)
  qed
  have t1: "rnd (of_nat i + 1 / 2) = of_int (2 * int i + 1) / 2"
  proof -
    have "(of_nat i + 1 / 2 :: rat) = of_int (2 * int i + 1) / 2" by simp
    moreover have "rnd (of_int (2 * int i + 1) / 2) = of_int (2 * int i + 1) / 2"
      using b1 by (intro float_rounding_half [OF fr]) simp
    ultimately show ?thesis by (simp only:)
  qed
  have t2: "rnd (of_int (2 * int i + 1) / 2 * of_nat n) = of_int ((2 * int i + 1) * int n) / 2"
  proof -
    have "(of_int (2 * int i + 1) / 2 * of_nat n :: rat) = of_int ((2 * int i + 1) * int n) / 2"
      by simp
    moreover have "rnd (of_int ((2 * int i + 1) * int n) / 2) = of_int ((2 * int i + 1) * int n) / 2"
      using b2 by (intro float_rounding_half [OF fr]) simp
    ultimately show ?thesis by (simp only:)
  qed
  define t3 where "t3 = rnd (of_int ((2 * int i + 1) * int n) / 2 / of_int out_n)"
  have "(of_int ((2 * int i + 1) * int n) / 2 / of_int out_n :: rat) \<le> of_int (int n)"
  proof -
    have "(of_int ((2 * int i + 1) * int n) :: rat) \<le> of_int (2 * out_n * int n)"
      using \<open>(2 * int i + 1) * int n \<le> (2 * out_n) * int n\<close> by (simp only: of_int_le_iff)
    then show ?thesis using o by (simp add: field_simps)
  qed
  then have "t3 \<le> rnd (of_int (int n))" unfolding t3_def by (rule float_rounding_mono [OF fr])
  moreover have "rnd (of_int (int n)) = of_int (int n)"
    using bn by (intro float_rounding_int [OF fr]) simp
  ultimately have t3n: "t3 \<le> of_int (int n)" by simp
  then have "t3 - 1 / 2 \<le> of_int (2 * int n - 1) / 2" by simp
  then have "rnd (t3 - 1 / 2) \<le> rnd (of_int (2 * int n - 1) / 2)"
    by (rule float_rounding_mono [OF fr])
  moreover have "rnd (of_int (2 * int n - 1) / 2) = of_int (2 * int n - 1) / 2"
    using bn n1 by (intro float_rounding_half [OF fr]) simp
  ultimately have "rnd (t3 - 1 / 2) \<le> of_int (2 * int n - 1) / 2" by simp
  then have "rnd (t3 - 1 / 2) < of_nat n" by simp
  with n have "max (rnd (t3 - 1 / 2)) 0 < of_nat n" by simp
  moreover have "c = Fin (max (rnd (t3 - 1 / 2)) 0)"
    unfolding ci t1 t2 t3_def ..
  ultimately show ?thesis by auto
qed


lemma astype_modf_range:
  assumes r: "\<forall>c \<in> set cs. \<exists>q. c = Fin q \<and> 0 \<le> q \<and> q < of_nat n"
  shows "astype_intp (map (snd \<circ> modf) cs) = Inr (map (\<lambda>c. \<lfloor>fin_value c\<rfloor>) cs)"
    and "\<forall>a \<in> set (map (\<lambda>c. \<lfloor>fin_value c\<rfloor>) cs). 0 \<le> a \<and> a < int n"
    and "astype_float32 (map (fst \<circ> modf) cs) = Inr (map (\<lambda>c. frac (fin_value c)) cs)"
proof -
  have m: "modf c = (Fin (frac (fin_value c)), Fin (of_int \<lfloor>fin_value c\<rfloor>))
      \<and> 0 \<le> \<lfloor>fin_value c\<rfloor> \<and> \<lfloor>fin_value c\<rfloor> < int n" if "c \<in> set cs" for c
  proof -
    from r that obtain q where q: "c = Fin q" "0 \<le> q" "q < of_nat n" by blast
    from q(3) have "\<lfloor>q\<rfloor> < int n" by (simp add: floor_less_iff)
    with q show ?thesis by (simp add: modf_def trunc_def fin_value_def frac_def)
  qed
  have fin: "list_all is_finite (map (snd \<circ> modf) cs)" "list_all is_finite (map (fst \<circ> modf) cs)"
    using m by (simp_all add: list_all_iff is_finite_def)
  have "map (trunc \<circ> fin_value) (map (snd \<circ> modf) cs) = map (\<lambda>c. \<lfloor>fin_value c\<rfloor>) cs"
    using m by (simp add: fin_value_def)
  with fin show "astype_intp (map (snd \<circ> modf) cs) = Inr (map (\<lambda>c. \<lfloor>fin_value c\<rfloor>) cs)"
    by (simp add: astype_intp_def)
  show "\<forall>a \<in> set (map (\<lambda>c. \<lfloor>fin_value c\<rfloor>) cs). 0 \<le> a \<and> a < int n"
    using m by simp
  have "map fin_value (map (fst \<circ> modf) cs) = map (\<lambda>c. frac (fin_value c)) cs"
    using m by (simp add: fin_value_def)
  with fin show "astype_float32 (map (fst \<circ> modf) cs) = Inr (map (\<lambda>c. frac (fin_value c)) cs)"
    by (simp add: astype_float32_def)
qed

lemma coords_align_corners_nan:
  assumes "float_rounding rnd"
  shows "coords_align_corners rnd n 1 = [NaN]"
  using float_rounding_zero [OF assms] by (simp add: coords_align_corners_def np_divide_def)

lemma axis_bilinear:
  assumes fr: "float_rounding rnd" and n: "0 < n" and sz: "2 * out_n * int n \<le> 2 ^ 53"
    and cs: "cs = (if align then coords_align_corners rnd n out_n else coords_half_pixel rnd n out_n)"
    and a: "astype_intp (map (snd \<circ> modf) cs) = Inr vs"
  shows "length vs = nat out_n \<and> (\<forall>a \<in> set vs. 0 \<le> a \<and> a < int n)
     \<and> (\<exists>ws. astype_float32 (map (fst \<circ> modf) cs) = Inr ws \<and> length ws = nat out_n)"
proof -
  have len: "length cs = nat out_n"
    by (simp add: cs coords_align_corners_def coords_half_pixel_def)
  have one: "\<not> (align \<and> out_n = 1)"
  proof
    assume "align \<and> out_n = 1"
    then have "cs = [NaN]" by (simp add: cs coords_align_corners_nan [OF fr])
    with a show False by (simp add: modf_def astype_intp_def is_finite_def)
  qed
  have r: "\<forall>c \<in> set cs. \<exists>q. c = Fin q \<and> 0 \<le> q \<and> q < of_nat n"
  proof (cases align)
    case False
    then show ?thesis using coords_half_pixel_range [OF fr n sz] by (simp add: cs)
  next
    case True
    show ?thesis
    proof (cases "1 < out_n")
      case True
      with \<open>align\<close> show ?thesis using coords_align_corners_range [OF fr n True sz] by (simp add: cs)
    next
      case False
      with one \<open>align\<close> have "out_n < 1" by simp
      then have "cs = []" using \<open>align\<close> by (simp add: cs coords_align_corners_def)
      then show ?thesis by simp
    qed
  qed
  from astype_modf_range [OF r] a len show ?thesis by auto
qed

lemma axis_nearest:
  assumes fr: "float_rounding rnd" and n: "0 < n"
    and cs: "coords_nearest rnd n out_n = Inr cs"
    and a: "astype_intp cs = Inr vs"
  shows "length vs = nat out_n \<and> (\<forall>a \<in> set vs. 0 \<le> a \<and> a < int n)"
proof -
  from cs have o: "out_n \<noteq> 0" by (auto simp: coords_nearest_def split: if_splits)
  with cs have c: "cs = map (\<lambda>i. Fin (of_int (nearest_index rnd n out_n i))) [0..<nat out_n]"
    by (simp add: coords_nearest_index)
  with a have vs: "vs = map (nearest_index rnd n out_n) [0..<nat out_n]"
    by (simp add: astype_intp_ints)
  show ?thesis
  proof (cases "0 < out_n")
    case True
    have "\<forall>q. 0 \<le> q \<longrightarrow> 0 \<le> rnd q" using float_rounding_nonneg [OF fr] by blast
    from nearest_index_range [OF this n True] show ?thesis by (simp add: vs)
  next
    case False
    then show ?thesis by (simp add: vs)
  qed
qed

lemma index_grids_in_bounds:
  assumes fr: "float_rounding rnd" and pos: "0 < H" "0 < W"
    and sz: "2 * oh * int H \<le> 2 ^ 53" "2 * ow * int W \<le> 2 ^ 53"
    and g: "index_grids rnd (oh, ow) (H, W) md align dt = Inr (v, u, vw, uw)"
  shows "(\<forall>a \<in> set (data v). 0 \<le> a \<and> a < int H) \<and> (\<forall>a \<in> set (data u). 0 \<le> a \<and> a < int W)
     \<and> shape v = [nat oh, nat ow] \<and> shape u = [nat oh, nat ow]
     \<and> shape vw = [nat oh, nat ow] \<and> shape uw = [nat oh, nat ow]
     \<and> wf_array v \<and> wf_array u \<and> wf_array vw \<and> wf_array uw"
proof -
  from g obtain cv cu cvw cuw vs us vws uws where
      c: "compute_indices_and_weights rnd (oh, ow) (H, W) md align = Inr (cv, cu, cvw, cuw)"
    and a: "astype_intp cv = Inr vs" "astype_intp cu = Inr us"
      "astype_float32 cvw = Inr vws" "astype_float32 cuw = Inr uws"
    and r: "v = broadcast_rows Intp vs (length us)" "u = broadcast_cols Intp (length vs) us"
      "vw = broadcast_rows dt vws (length uws)" "uw = broadcast_cols dt (length vws) uws"
    by (auto simp: index_grids_def split: sum.splits)
  have ax: "length vs = nat oh \<and> (\<forall>a \<in> set vs. 0 \<le> a \<and> a < int H)
      \<and> length us = nat ow \<and> (\<forall>a \<in> set us. 0 \<le> a \<and> a < int W)
      \<and> length vws = nat oh \<and> length uws = nat ow"
  proof (cases "md = ''bilinear''")
    case True
    define csv where "csv = (if align then coords_align_corners rnd H oh
                             else coords_half_pixel rnd H oh)"
    define csu where "csu = (if align then coords_align_corners rnd W ow
                             else coords_half_pixel rnd W ow)"
    from c True have e: "cv = map (snd \<circ> modf) csv" "cu = map (snd \<circ> modf) csu"
        "cvw = map (fst \<circ> modf) csv" "cuw = map (fst \<circ> modf) csu"
      by (simp_all add: compute_indices_and_weights_def Let_def csv_def csu_def)
    from axis_bilinear [OF fr pos(1) sz(1) csv_def a(1) [unfolded e]]
      axis_bilinear [OF fr pos(2) sz(2) csu_def a(2) [unfolded e]] a(3,4)
    show ?thesis by (auto simp: e)
  next
    case False
    with c have n: "md = ''nearest''"
      by (auto simp: compute_indices_and_weights_def split: if_splits)
    from c n False have cn: "coords_nearest rnd H oh = Inr cv" "coords_nearest rnd W ow = Inr cu"
        and w: "cvw = map (\<lambda>_. Fin 0) cv" "cuw = map (\<lambda>_. Fin 0) cu"
      by (auto simp: compute_indices_and_weights_def split: sum.splits)
    from a(1) have lv: "length vs = length cv" by (auto simp: astype_intp_def split: if_splits)
    from a(2) have lu: "length us = length cu" by (auto simp: astype_intp_def split: if_splits)
    from a(3) w have lvw: "length vws = length cv" by (auto simp: astype_float32_zeros)
    from a(4) w have luw: "length uws = length cu" by (auto simp: astype_float32_zeros)
    from axis_nearest [OF fr pos(1) cn(1) a(1)] axis_nearest [OF fr pos(2) cn(2) a(2)]
      lv lu lvw luw
    show ?thesis by simp
  qed
  have sv: "set (data v) \<subseteq> set vs" using broadcast_rows_set [of "length us" vs]
    by (simp add: r broadcast_rows_def)
  have su: "set (data u) \<subseteq> set us" using broadcast_cols_set [of "length vs" us]
    by (simp add: r broadcast_cols_def)
  from ax sv su have "(\<forall>a \<in> set (data v). 0 \<le> a \<and> a < int H)
      \<and> (\<forall>a \<in> set (data u). 0 \<le> a \<and> a < int W)" by blast
  moreover have "shape v = [nat oh, nat ow] \<and> shape u = [nat oh, nat ow]
     \<and> shape vw = [nat oh, nat ow] \<and> shape uw = [nat oh, nat ow]"
    using ax by (simp add: r broadcast_rows_def broadcast_cols_def)
  moreover have "wf_array v \<and> wf_array u \<and> wf_array vw \<and> wf_array uw"
    using ax
    by (simp add: r wf_array_def broadcast_rows_def broadcast_cols_def
          broadcast_rows_length broadcast_cols_length)
  ultimately show ?thesis by simp
qed

subsection \<open>The identity law for images of two or more rows and columns\<close>

text \<open>
  With \<open>out_H = H\<close> and \<open>out_W = W\<close>, both greater than one, the align\_corners
  coordinates are \<open>i * (H - 1) / (H - 1) = i\<close>: the product is an integer that float64
  holds exactly, and so is the quotient. The weights are zero and the operator returns
  its input.
\<close>

lemma coords_align_corners_identity:
  assumes fr: "float_rounding rnd" and n: "1 < n" and sz: "int n * int n \<le> 2 ^ 52"
  shows "coords_align_corners rnd n (int n) = map (\<lambda>i. Fin (of_nat i)) [0..<n]"
proof -
  have "np_divide rnd (rnd (of_nat i * of_int (int n - 1))) (int n - 1) = Fin (of_nat i)"
    if i: "i < n" for i
  proof -
    define k where "k = int i * (int n - 1)"
    have k0: "0 \<le> k" using n by (simp add: k_def)
    have "k \<le> int n * int n" unfolding k_def using i n by (intro mult_mono) simp_all
    with sz k0 have "\<bar>k\<bar> \<le> 2 ^ 52" by simp
    then have rk: "rnd (of_int k) = of_int k" by (rule float_rounding_int [OF fr])
    have e: "(of_nat i * of_int (int n - 1) :: rat) = of_int k" by (simp add: k_def)
    from n have d: "(of_int (int n - 1) :: rat) \<noteq> 0" by simp
    have q: "(of_int k :: rat) / of_int (int n - 1) = of_int (int i)"
      unfolding k_def of_int_mult using d by (rule nonzero_mult_div_cancel_right)
    have "int i \<le> int n * int n"
    proof -
      have "int i * 1 \<le> int n * int n" using i n by (intro mult_mono) simp_all
      then show ?thesis by simp
    qed
    with sz have "\<bar>int i\<bar> \<le> 2 ^ 52" by simp
    then have "rnd (of_int (int i)) = of_int (int i)" by (rule float_rounding_int [OF fr])
    then have ri: "rnd (of_nat i) = of_nat i" by simp
    have q': "(of_int k :: rat) / of_int (int n - 1) = of_nat i" using q by simp
    from n have nz: "int n - 1 \<noteq> 0" by simp
    show ?thesis unfolding e rk np_divide_def using nz by (simp only: if_False q' ri)
  qed
  then show ?thesis by (simp add: coords_align_corners_def)
qed

lemma trunc_of_nat: "trunc (of_nat i) = int i"
  by (simp add: trunc_def)

lemma modf_of_nat: "modf (Fin (of_nat i)) = (Fin 0, Fin (of_nat i))"
  by (simp add: modf_def trunc_def)

lemma index_grids_identity:
  assumes fr: "float_rounding rnd" and n: "1 < H" "1 < W"
    and sz: "int H * int H \<le> 2 ^ 52" "int W * int W \<le> 2 ^ 52"
  shows "index_grids rnd (int H, int W) (H, W) ''bilinear'' True dt
    = Inr (broadcast_rows Intp (map int [0..<H]) W, broadcast_cols Intp H (map int [0..<W]),
           broadcast_rows dt (replicate H 0) W, broadcast_cols dt H (replicate W 0))"
proof -
  have a: "astype_intp (map (snd \<circ> modf) (map (\<lambda>i. Fin (of_nat i)) [0..<m])) = Inr (map int [0..<m])"
    for m
    by (simp add: astype_intp_def list_all_iff modf_of_nat is_finite_def fin_value_def comp_def
          trunc_of_nat)
  have b: "astype_float32 (map (fst \<circ> modf) (map (\<lambda>i. Fin (of_nat i)) [0..<m])) = Inr (replicate m 0)"
    for m
    by (simp add: astype_float32_def list_all_iff modf_of_nat is_finite_def fin_value_def comp_def
          map_replicate_const)
  show ?thesis
    by (simp only: index_grids_def compute_indices_and_weights_def prod.case if_True refl Let_def
          coords_align_corners_identity [OF fr n(1) sz(1)]
          coords_align_corners_identity [OF fr n(2) sz(2)] a b sum.case length_map length_upt
          length_replicate diff_zero)
qed

lemma identity_blocks:
  assumes l: "length xs = m * (H * W)" and W: "0 < W"
  shows "concat (map (\<lambda>bc. map (\<lambda>K. xs ! (bc * (H * W)
             + nat (map int [0..<H] ! (K div W)) * W + nat (map int [0..<W] ! (K mod W))))
           [0..<H * W]) [0..<m]) = xs"
proof -
  have "map (\<lambda>K. xs ! (bc * (H * W)
             + nat (map int [0..<H] ! (K div W)) * W + nat (map int [0..<W] ! (K mod W))))
           [0..<H * W] = take (H * W) (drop (bc * (H * W)) xs)" if bc: "bc < m" for bc
  proof (rule nth_equalityI)
    from bc have "Suc bc \<le> m" by simp
    then have "Suc bc * (H * W) \<le> m * (H * W)" by (rule mult_le_mono1)
    then have le: "bc * (H * W) + H * W \<le> length xs" by (simp add: l)
    then show "length (map (\<lambda>K. xs ! (bc * (H * W)
             + nat (map int [0..<H] ! (K div W)) * W + nat (map int [0..<W] ! (K mod W))))
           [0..<H * W]) = length (take (H * W) (drop (bc * (H * W)) xs))"
      by simp
    fix K assume "K < length (map (\<lambda>K. xs ! (bc * (H * W)
             + nat (map int [0..<H] ! (K div W)) * W + nat (map int [0..<W] ! (K mod W))))
           [0..<H * W])"
    then have K: "K < H * W" by simp
    then have d: "K div W < H" "K mod W < W" using W by (simp_all add: less_mult_imp_div_less)
    have "K div W * W + K mod W = K" by simp
    then have "bc * (H * W) + K div W * W + K mod W = bc * (H * W) + K" by linarith
    with K d le show "map (\<lambda>K. xs ! (bc * (H * W)
             + nat (map int [0..<H] ! (K div W)) * W + nat (map int [0..<W] ! (K mod W))))
           [0..<H * W] ! K = take (H * W) (drop (bc * (H * W)) xs) ! K"
      by (simp add: add.commute)
  qed
  then have "map (\<lambda>bc. map (\<lambda>K. xs ! (bc * (H * W)
             + nat (map int [0..<H] ! (K div W)) * W + nat (map int [0..<W] ! (K mod W))))
           [0..<H * W]) [0..<m] = map (\<lambda>k. take (H * W) (drop (k * (H * W)) xs)) [0..<m]"
    by simp
  then have "concat (map (\<lambda>bc. map (\<lambda>K. xs ! (bc * (H * W)
             + nat (map int [0..<H] ! (K div W)) * W + nat (map int [0..<W] ! (K mod W))))
           [0..<H * W]) [0..<m])
      = concat (map (\<lambda>k. take (H * W) (drop (k * (H * W)) xs)) [0..<m])"
    by (rule arg_cong)
  also have "\<dots> = xs" by (rule concat_blocks [OF l])
  finally show ?thesis .
qed

lemma resize_identity_exact:
  assumes fr: "float_rounding rnd"
    and dt: "dtype x = Float32" and sx: "shape x = [B, C, H, W]" and wf: "wf_array x"
    and pos: "0 < B" "0 < C" "1 < H" "1 < W"
    and sz: "int H * int H \<le> 2 ^ 52" "int W * int W \<le> 2 ^ 52"
  shows "resize_images rnd x (int H, int W) ''bilinear'' True = Inr x"
proof -
  from pos have p: "0 < H" "0 < W" by simp_all
  from wf sx have l: "length (data x) = (B * C) * (H * W)"
    by (simp add: wf_array_def mult.assoc)
  have inv: "\<forall>a \<in> set (map int [0..<H]). 0 \<le> a \<and> a < int H" by auto
  have inu: "\<forall>a \<in> set (map int [0..<W]). 0 \<le> a \<and> a < int W" by auto
  have sel: "interpolate_bilinear_cpu x (broadcast_rows Intp (map int [0..<H]) W)
           (broadcast_cols Intp H (map int [0..<W]))
           (broadcast_rows Float32 (replicate H 0) W) (broadcast_cols Float32 H (replicate W 0))
       = Inr \<lparr>dtype = dtype x, shape = [B, C, H, W],
              data = concat (map (\<lambda>bc. map (\<lambda>K. data x ! (bc * (H * W)
                        + nat (map int [0..<H] ! (K div W)) * W + nat (map int [0..<W] ! (K mod W))))
                                [0..<H * W]) [0..<B * C])\<rparr>"
    by (rule select_pipeline [OF sx pos(1,2) p p _ _ inv inu]) simp_all
  have x: "\<lparr>dtype = dtype x, shape = [B, C, H, W], data = data x\<rparr> = x"
    using sx by (cases x) simp
  from sel have "interpolate_bilinear_cpu x (broadcast_rows Intp (map int [0..<H]) W)
           (broadcast_cols Intp H (map int [0..<W]))
           (broadcast_rows Float32 (replicate H 0) W) (broadcast_cols Float32 H (replicate W 0))
       = Inr x"
    unfolding identity_blocks [OF l p(2)] x .
  then show ?thesis
    by (simp add: resize_images_def ResizeImages_init_def ResizeImages_apply_def
          FunctionNode_apply_def check_type_forward_def expect_def ResizeImages_forward_def
          unpack2_def dt sx index_grids_identity [OF fr pos(3,4) sz])
qed

lemma resize_identity_2x2:
  "resize_images fl64 \<lparr>dtype = Float32, shape = [1, 1, 2, 2], data = [1, 2, 3, 4]\<rparr> (2, 2)
     ''bilinear'' True = Inr \<lparr>dtype = Float32, shape = [1, 1, 2, 2], data = [1, 2, 3, 4]\<rparr>"
  using resize_identity_exact [OF float_rounding_fl64, of
      "\<lparr>dtype = Float32, shape = [1, 1, 2, 2], data = [1, 2, 3, 4]\<rparr>" 1 1 2 2]
  by (simp add: wf_array_def)

subsection \<open>The adjoint law for the two operator nodes\<close>

text \<open>
  The generator returns grids for both modes and every positive output size, the
  align\_corners formula with a single output row or column apart. The two nodes, given
  the same parameters, build the same grids; with the bounds on the base indices the
  gradient node is the adjoint of the forward node.
\<close>

lemma index_grids_returns:
  assumes fr: "float_rounding rnd" and pos: "0 < H" "0 < W" "0 < oh" "0 < ow"
    and sz: "2 * oh * int H \<le> 2 ^ 53" "2 * ow * int W \<le> 2 ^ 53"
    and md: "md = ''bilinear'' \<or> md = ''nearest''"
    and ok: "\<not> (md = ''bilinear'' \<and> align \<and> (oh = 1 \<or> ow = 1))"
  shows "\<exists>v u vw uw. index_grids rnd (oh, ow) (H, W) md align dt = Inr (v, u, vw, uw)"
proof (cases "md = ''bilinear''")
  case False
  with md have "md = ''nearest''" by simp
  then show ?thesis using index_grids_nearest [OF pos(3,4)] by simp
next
  case True
  define csv where "csv = (if align then coords_align_corners rnd H oh
                           else coords_half_pixel rnd H oh)"
  define csu where "csu = (if align then coords_align_corners rnd W ow
                           else coords_half_pixel rnd W ow)"
  from ok True pos have o: "align \<Longrightarrow> 1 < oh" "align \<Longrightarrow> 1 < ow" by auto
  have rv: "\<forall>c \<in> set csv. \<exists>q. c = Fin q \<and> 0 \<le> q \<and> q < of_nat H"
    using coords_align_corners_range [OF fr pos(1) o(1) sz(1)]
      coords_half_pixel_range [OF fr pos(1) sz(1)]
    by (simp add: csv_def)
  have ru: "\<forall>c \<in> set csu. \<exists>q. c = Fin q \<and> 0 \<le> q \<and> q < of_nat W"
    using coords_align_corners_range [OF fr pos(2) o(2) sz(2)]
      coords_half_pixel_range [OF fr pos(2) sz(2)]
    by (simp add: csu_def)
  have c: "compute_indices_and_weights rnd (oh, ow) (H, W) md align
      = Inr (map (snd \<circ> modf) csv, map (snd \<circ> modf) csu,
             map (fst \<circ> modf) csv, map (fst \<circ> modf) csu)"
    using True by (simp add: compute_indices_and_weights_def Let_def csv_def csu_def)
  show ?thesis
    unfolding index_grids_def c
    by (simp only: sum.case prod.case astype_modf_range(1) [OF rv] astype_modf_range(1) [OF ru]
          astype_modf_range(3) [OF rv] astype_modf_range(3) [OF ru]) blast
qed

lemma operators_adjoint:
  assumes fr: "float_rounding rnd"
    and dx: "dtype x = Float32" and sx: "shape x = [B, C, H, W]" and wx: "wf_array x"
    and dgy: "dtype gy = Float32" and sgy: "shape gy = [B, C, nat oh, nat ow]" and wgy: "wf_array gy"
    and pos: "0 < B" "0 < C" "0 < H" "0 < W" "0 < oh" "0 < ow"
    and sz: "2 * oh * int H \<le> 2 ^ 53" "2 * ow * int W \<le> 2 ^ 53"
    and md: "md = ''bilinear'' \<or> md = ''nearest''"
    and ok: "\<not> (md = ''bilinear'' \<and> align \<and> (oh = 1 \<or> ow = 1))"
  shows "\<exists>y gx.
        ResizeImages_apply rnd
          \<lparr>node_out_H = oh, node_out_W = ow, node_mode = md, node_align_corners = align\<rparr> x = Inr y
      \<and> ResizeImagesGrad_apply rnd
          \<lparr>grad_out_H = oh, grad_out_W = ow, grad_input_shape = shape x, grad_mode = md,
           grad_align_corners = align\<rparr> gy = Inr gx
      \<and> shape y = shape gy \<and> shape gx = shape x
      \<and> inner (data y) (data gy) = inner (data x) (data gx)"
proof -
  obtain v u vw uw where g: "index_grids rnd (oh, ow) (H, W) md align Float32 = Inr (v, u, vw, uw)"
    using index_grids_returns [OF fr pos(3-6) sz md ok] by blast
  from index_grids_in_bounds [OF fr pos(3,4) sz g]
  have inv: "\<forall>a \<in> set (data v). 0 \<le> a \<and> a < int H"
    and inu: "\<forall>a \<in> set (data u). 0 \<le> a \<and> a < int W"
    and sg: "shape v = [nat oh, nat ow]" "shape u = [nat oh, nat ow]"
      "shape vw = [nat oh, nat ow]" "shape uw = [nat oh, nat ow]"
    and wf: "wf_array v" "wf_array u" "wf_array vw" "wf_array uw"
    by simp_all
  from pos have p: "0 < nat oh" "0 < nat ow" by simp_all
  from sx wx have lx: "length (data x) = B * C * (H * W)"
    by (simp add: wf_array_def algebra_simps)
  obtain gx where gx: "interpolate_grad_bilinear_cpu gy v u vw uw H W = Inr gx"
      "shape gx = [B, C, H, W]"
      "inner (data x) (data gx)
        = inner (concat (map (\<lambda>bc. map (engine_pixel (data x) H W (data v) (data u)
                                          (data vw) (data uw) bc) [0..<nat oh * nat ow])
                   [0..<B * C])) (data gy)"
    using interpolate_grad_inner [OF lx sgy wgy sg wf pos(3,4) inv inu] by blast
  note y = interpolate_bilinear_cpu_pixels [OF sx sg wf pos(1-4) p inv inu]
  have 1: "ResizeImages_apply rnd
          \<lparr>node_out_H = oh, node_out_W = ow, node_mode = md, node_align_corners = align\<rparr> x
        = interpolate_bilinear_cpu x v u vw uw"
    by (simp add: ResizeImages_apply_def FunctionNode_apply_def check_type_forward_def expect_def
          ResizeImages_forward_def unpack2_def dx sx g)
  have 2: "ResizeImagesGrad_apply rnd
          \<lparr>grad_out_H = oh, grad_out_W = ow, grad_input_shape = shape x, grad_mode = md,
           grad_align_corners = align\<rparr> gy
        = interpolate_grad_bilinear_cpu gy v u vw uw H W"
    by (simp add: ResizeImagesGrad_apply_def FunctionNode_apply_def check_type_forward_def
          expect_def ResizeImagesGrad_forward_def unpack4_def dgy sgy sx g)
  show ?thesis unfolding 1 2 using y gx sx sgy by simp
qed

lemma operators_adjoint_fl64:
  "\<exists>y gx.
        ResizeImages_apply fl64
          \<lparr>node_out_H = 3, node_out_W = 3, node_mode = ''bilinear'', node_align_corners = True\<rparr>
          \<lparr>dtype = Float32, shape = [1, 1, 2, 2], data = [1, 2, 3, 4]\<rparr> = Inr y
      \<and> ResizeImagesGrad_apply fl64
          \<lparr>grad_out_H = 3, grad_out_W = 3, grad_input_shape = [1, 1, 2, 2],
           grad_mode = ''bilinear'', grad_align_corners = True\<rparr>
          \<lparr>dtype = Float32, shape = [1, 1, 3, 3], data = [1, 2, 3, 4, 5, 6, 7, 8, 9]\<rparr> = Inr gx
      \<and> shape y = [1, 1, 3, 3] \<and> shape gx = [1, 1, 2, 2]
      \<and> inner (data y) [1, 2, 3, 4, 5, 6, 7, 8, 9] = inner [1, 2, 3, 4] (data gx)"
  using operators_adjoint [OF float_rounding_fl64, of
      "\<lparr>dtype = Float32, shape = [1, 1, 2, 2], data = [1, 2, 3, 4]\<rparr>" 1 1 2 2
      "\<lparr>dtype = Float32, shape = [1, 1, 3, 3], data = [1, 2, 3, 4, 5, 6, 7, 8, 9]\<rparr>" 3 3
      "''bilinear''" True]
  by (simp add: wf_array_def)

section \<open>Validation by the operator nodes\<close>

lemma fl64_zero: "fl64 0 = 0"
  by (simp add: fl64_def round_to_precision_def)


lemma astype_intp_cases:
  "astype_intp xs = Inl NonFiniteIndex \<or> (\<exists>ys. astype_intp xs = Inr ys \<and> length ys = length xs)"
  by (simp add: astype_intp_def)








lemma zero_height_raises:
  "resize_images fl64 \<lparr>dtype = Float32, shape = [1, 1, 2, 2], data = [1, 2, 3, 4]\<rparr> (0, 2)
      ''bilinear'' True = Inl ZeroDivisionError"
  by code_simp

text \<open>
  Claim C5. An input that is not of rank 4 or not of type float32 makes both operator
  nodes fail with the validation error (InvalidDtype when the type is wrong, else
  InvalidRank), whatever the forward computation is: it is not reached.
\<close>

theorem type_check_precedes_computation:
  assumes "dtype x \<noteq> Float32 \<or> length (shape x) \<noteq> 4"
  shows "ResizeImages_apply rnd node x
       = Inl (if dtype x \<noteq> Float32 then InvalidDtype else InvalidRank)
     \<and> ResizeImagesGrad_apply rnd gnode x
       = Inl (if dtype x \<noteq> Float32 then InvalidDtype else InvalidRank)
     \<and> FunctionNode_apply check_type_forward fwd x
       = Inl (if dtype x \<noteq> Float32 then InvalidDtype else InvalidRank)"
  using assms
  by (auto simp: ResizeImages_apply_def ResizeImagesGrad_apply_def FunctionNode_apply_def
        check_type_forward_def expect_def)

theorem type_check_precedes_computation_witness:
  "ResizeImages_apply fl64
       \<lparr>node_out_H = 4, node_out_W = 4, node_mode = ''bilinear'', node_align_corners = True\<rparr>
       \<lparr>dtype = Float32, shape = [2, 2], data = [1, 2, 3, 4]\<rparr> = Inl InvalidRank
   \<and> ResizeImagesGrad_apply fl64
       \<lparr>grad_out_H = 4, grad_out_W = 4, grad_input_shape = [1, 1, 2, 2],
        grad_mode = ''bilinear'', grad_align_corners = True\<rparr>
       \<lparr>dtype = Float32, shape = [2, 2], data = [1, 2, 3, 4]\<rparr> = Inl InvalidRank
   \<and> FunctionNode_apply check_type_forward (\<lambda>x. Inr x)
       \<lparr>dtype = Float32, shape = [2, 2], data = [1, 2, 3, 4 :: rat]\<rparr> = Inl InvalidRank"
  using type_check_precedes_computation [of
      "\<lparr>dtype = Float32, shape = [2, 2], data = [1, 2, 3, 4 :: rat]\<rparr>" fl64
      "\<lparr>node_out_H = 4, node_out_W = 4, node_mode = ''bilinear'', node_align_corners = True\<rparr>"
      "\<lparr>grad_out_H = 4, grad_out_W = 4, grad_input_shape = [1, 1, 2, 2],
        grad_mode = ''bilinear'', grad_align_corners = True\<rparr>" "\<lambda>x. Inr x"]
  by simp

lemma type_check_dtype:
  "ResizeImages_apply fl64
       \<lparr>node_out_H = 4, node_out_W = 4, node_mode = ''bilinear'', node_align_corners = True\<rparr>
       \<lparr>dtype = Float64, shape = [1, 1, 2, 2], data = [1, 2, 3, 4]\<rparr> = Inl InvalidDtype"
  by (simp add: ResizeImages_apply_def FunctionNode_apply_def check_type_forward_def expect_def)

lemma type_check_accepts:
  "dtype x = Float32 \<Longrightarrow> length (shape x) = 4 \<Longrightarrow> check_type_forward x = Inr ()"
  by (simp add: check_type_forward_def expect_def)

section \<open>The coordinate generator at a single output row, and a worked example\<close>

lemma coords_align_corners_single: "coords_align_corners fl64 n 1 = [NaN]"
  by (simp add: coords_align_corners_def np_divide_def fl64_zero)

lemma astype_intp_nan: "astype_intp [NaN] = Inl NonFiniteIndex"
  by (simp add: astype_intp_def is_finite_def)

lemma index_grids_align_single:
  assumes "oh = 1 \<or> ow = 1"
  shows "index_grids fl64 (oh, ow) (H, W) ''bilinear'' True dt = Inl NonFiniteIndex"
proof (cases "oh = 1")
  case True
  then show ?thesis
    by (simp add: index_grids_def compute_indices_and_weights_def coords_align_corners_single
          modf_def astype_intp_nan Let_def)
next
  case False
  with assms have ow: "ow = 1" by simp
  show ?thesis
    using astype_intp_cases [of "map (snd \<circ> modf) (coords_align_corners fl64 H oh)"]
    by (auto simp: index_grids_def compute_indices_and_weights_def ow
          coords_align_corners_single modf_def astype_intp_nan Let_def)
qed

lemma resize_align_single_fails:
  assumes "dtype x = Float32" "shape x = [B, C, H, W]" "oh = 1 \<or> ow = 1"
  shows "resize_images fl64 x (oh, ow) ''bilinear'' True = Inl NonFiniteIndex"
  using assms
  by (simp add: resize_images_def ResizeImages_init_def ResizeImages_apply_def
        FunctionNode_apply_def check_type_forward_def expect_def ResizeImages_forward_def
        unpack2_def index_grids_align_single)

lemma coords_align_corners_exact:
  assumes "1 < out_n" "i < nat out_n"
  shows "coords_align_corners id n out_n ! i
       = Fin (of_nat i * (of_nat n - 1) / (of_int out_n - 1))"
  using assms by (simp add: coords_align_corners_def np_divide_def)

text \<open>
  Claim C3 fails on the code. For \<open>out_H > 1\<close> the coordinate is
  \<open>i * (H - 1) / (out_H - 1)\<close> (lemma \<open>coords_align_corners_exact\<close>), but for
  \<open>out_H = 1\<close> no guard exists: the code divides \<open>0 * (H - 1)\<close> by \<open>out_H - 1 = 0\<close>,
  and the one coordinate and its weight are \<open>nan\<close>, not 0.
\<close>

theorem align_corners_single_output_is_nan:
  "compute_indices_and_weights fl64 (1, 1) (H, W) ''bilinear'' True
     = Inr ([NaN], [NaN], [NaN], [NaN])"
  by (simp add: compute_indices_and_weights_def coords_align_corners_single modf_def Let_def)

text \<open>
  Claim C2 fails on the code for an image with one row or one column: the coordinates
  are \<open>nan\<close> (the division by \<open>H - 1 = 0\<close> of claim C3) and the call does not return
  the input. An image of two or more rows and columns is returned as it is (lemma
  \<open>resize_identity_exact\<close>).
\<close>

theorem resize_1x1_to_1x1_fails:
  "resize_images fl64 \<lparr>dtype = Float32, shape = [1, 1, 1, 1], data = [5]\<rparr> (1, 1)
      ''bilinear'' True = Inl NonFiniteIndex"
  by (rule resize_align_single_fails) simp_all

text \<open>
  Claim C7 fails on the code for a single output row or column in bilinear mode with
  align\_corners: the base row coordinate is \<open>nan\<close>, which has no index inside
  \<open>[0, H - 1]\<close>, and the call ends at its cast. In every call whose grids the
  generator returns, the base indices lie inside the image (lemma
  \<open>index_grids_in_bounds\<close>), and the engines take the neighbours as
  \<open>min (v0 + 1) (H - 1)\<close> and \<open>min (u0 + 1) (W - 1)\<close> (\<open>clamp_next\<close>).
\<close>

theorem single_row_base_index_is_nan:
  "compute_indices_and_weights fl64 (1, 2) (2, 2) ''bilinear'' True
     = Inr ([NaN], [Fin 0, Fin 1], [NaN], [Fin 0, Fin 0])
   \<and> resize_images fl64 \<lparr>dtype = Float32, shape = [1, 1, 2, 2], data = [1, 2, 3, 4]\<rparr> (1, 2)
      ''bilinear'' True = Inl NonFiniteIndex"
proof
  show "compute_indices_and_weights fl64 (1, 2) (2, 2) ''bilinear'' True
     = Inr ([NaN], [Fin 0, Fin 1], [NaN], [Fin 0, Fin 0])"
    by code_simp
  show "resize_images fl64 \<lparr>dtype = Float32, shape = [1, 1, 2, 2], data = [1, 2, 3, 4]\<rparr> (1, 2)
      ''bilinear'' True = Inl NonFiniteIndex"
    by (rule resize_align_single_fails) simp_all
qed

text \<open>
  Claim C9. The image \<open>[[1, 2], [3, 4]]\<close> resized to \<open>(4, 4)\<close> in bilinear mode with
  align\_corners: the row and column coordinates are 0, 1/3, 2/3, 1 (base indices
  0, 0, 0, 1 with weights 0, 1/3, 2/3, 0), the corners of the output are 1, 2, 3, 4 and
  the other pixels are the bilinear blends (exact arithmetic); with float64 coordinates
  the corners are 1, 2, 3, 4 as well.
\<close>

theorem resize_2x2_to_4x4:
  "compute_indices_and_weights id (4, 4) (2, 2) ''bilinear'' True
    = Inr ([Fin 0, Fin 0, Fin 0, Fin 1], [Fin 0, Fin 0, Fin 0, Fin 1],
           [Fin 0, Fin (1 / 3), Fin (2 / 3), Fin 0], [Fin 0, Fin (1 / 3), Fin (2 / 3), Fin 0])
   \<and> resize_images id \<lparr>dtype = Float32, shape = [1, 1, 2, 2], data = [1, 2, 3, 4]\<rparr> (4, 4)
      ''bilinear'' True
    = Inr \<lparr>dtype = Float32, shape = [1, 1, 4, 4],
           data = [1, 4 / 3, 5 / 3, 2,
                   5 / 3, 2, 7 / 3, 8 / 3,
                   7 / 3, 8 / 3, 3, 10 / 3,
                   3, 10 / 3, 11 / 3, 4]\<rparr>
   \<and> map (\<lambda>(i, j). output_at (resize_images fl64
            \<lparr>dtype = Float32, shape = [1, 1, 2, 2], data = [1, 2, 3, 4]\<rparr> (4, 4)
            ''bilinear'' True) 0 0 i j) [(0, 0), (0, 3), (3, 0), (3, 3)]
    = [Some 1, Some 2, Some 3, Some 4]"
proof (intro conjI)
  show "compute_indices_and_weights id (4, 4) (2, 2) ''bilinear'' True
    = Inr ([Fin 0, Fin 0, Fin 0, Fin 1], [Fin 0, Fin 0, Fin 0, Fin 1],
           [Fin 0, Fin (1 / 3), Fin (2 / 3), Fin 0], [Fin 0, Fin (1 / 3), Fin (2 / 3), Fin 0])"
    by code_simp
  show "resize_images id \<lparr>dtype = Float32, shape = [1, 1, 2, 2], data = [1, 2, 3, 4]\<rparr> (4, 4)
      ''bilinear'' True
    = Inr \<lparr>dtype = Float32, shape = [1, 1, 4, 4],
           data = [1, 4 / 3, 5 / 3, 2,
                   5 / 3, 2, 7 / 3, 8 / 3,
                   7 / 3, 8 / 3, 3, 10 / 3,
                   3, 10 / 3, 11 / 3, 4]\<rparr>"
    by code_simp
  show "map (\<lambda>(i, j). output_at (resize_images fl64
            \<lparr>dtype = Float32, shape = [1, 1, 2, 2], data = [1, 2, 3, 4]\<rparr> (4, 4)
            ''bilinear'' True) 0 0 i j) [(0, 0), (0, 3), (3, 0), (3, 3)]
    = [Some 1, Some 2, Some 3, Some 4]"
    by code_simp
qed

end
